theory Spec2Isabelle
  imports Complex_Main "HOL-Library.Char_ord" "HOL-Library.List_Lexorder"
begin

section \<open>Strings of the runtime\<close>

text \<open>
  The program is TypeScript. Its strings are modelled as lists of 8-bit characters, so
  the model covers text whose code units are below 256; the built-in string operations
  the program calls are written out below for that range.
\<close>

text \<open>
  The class \<^verbatim>\<open>\s\<close> of regular expressions, which is also what \<^verbatim>\<open>trim\<close> removes:
  tab, line feed, vertical tab, form feed, carriage return, space and the no-break space.
\<close>

definition is_ws :: "char \<Rightarrow> bool" where
  "is_ws c = (c \<in> set [CHR 0x09, CHR 0x0A, CHR 0x0B, CHR 0x0C, CHR 0x0D, CHR 0x20, CHR 0xA0])"

text \<open>\<^verbatim>\<open>s.trim()\<close>\<close>

definition trim :: "string \<Rightarrow> string" where
  "trim s = rev (dropWhile is_ws (rev (dropWhile is_ws s)))"

text \<open>
  \<^verbatim>\<open>s.split(sep)\<close> for a separator of one character: the pieces between the
  occurrences of the separator, empty pieces included; the empty string gives one empty
  piece. The second argument is the piece being read.
\<close>

fun split_from :: "char \<Rightarrow> string \<Rightarrow> string \<Rightarrow> string list" where
  "split_from sep cur [] = [cur]"
| "split_from sep cur (c # cs) =
     (if c = sep then cur # split_from sep [] cs else split_from sep (cur @ [c]) cs)"

definition split_on :: "char \<Rightarrow> string \<Rightarrow> string list" where
  "split_on sep s = split_from sep [] s"

text \<open>
  \<^verbatim>\<open>s.split(/\s+/)\<close>: the pieces between the maximal runs of white space. A run at
  the start or at the end of the string leaves an empty piece there. The flag says that
  the previous character belonged to a run.
\<close>

fun split_ws_from :: "bool \<Rightarrow> string \<Rightarrow> string \<Rightarrow> string list" where
  "split_ws_from in_run cur [] = [cur]"
| "split_ws_from in_run cur (c # cs) =
     (if is_ws c then
        (if in_run then split_ws_from True cur cs else cur # split_ws_from True [] cs)
      else split_ws_from False (cur @ [c]) cs)"

definition split_ws :: "string \<Rightarrow> string list" where
  "split_ws s = split_ws_from False [] s"

text \<open>\<^verbatim>\<open>s.toLowerCase()\<close> on code units below 256.\<close>

definition lower_char :: "char \<Rightarrow> char" where
  "lower_char c =
     (let n = (of_char c :: nat) in
      if (65 \<le> n \<and> n \<le> 90) \<or> (192 \<le> n \<and> n \<le> 222 \<and> n \<noteq> 215)
      then char_of (n + 32) else c)"

definition toLowerCase :: "string \<Rightarrow> string" where
  "toLowerCase s = map lower_char s"

text \<open>\<^verbatim>\<open>s.startsWith('#')\<close>, \<^verbatim>\<open>s.includes(':')\<close>, \<^verbatim>\<open>s.substring(1)\<close>\<close>

definition startsWith :: "string \<Rightarrow> char \<Rightarrow> bool" where
  "startsWith s c = (case s of [] \<Rightarrow> False | d # _ \<Rightarrow> d = c)"

definition includes_char :: "string \<Rightarrow> char \<Rightarrow> bool" where
  "includes_char s c = (c \<in> set s)"

definition substring1 :: "string \<Rightarrow> string" where
  "substring1 s = drop 1 s"

text \<open>
  \<^verbatim>\<open>content.split('\n').map(line => line.trim()).filter(Boolean)\<close>: the trimmed
  lines that are not empty. Both readers start with it.
\<close>

definition content_lines :: "string \<Rightarrow> string list" where
  "content_lines content = filter (\<lambda>l. l \<noteq> []) (map trim (split_on CHR 0x0A content))"

section \<open>Numbers of the runtime\<close>

text \<open>
  A number of the program is an IEEE double. The model keeps the three kinds of value the
  program tells apart (not-a-number, the infinities, the finite values) and represents a
  finite value by the rational it denotes, without the rounding to 53 bits; the two zeros
  are one value.
\<close>

datatype number = NaN | PosInf | NegInf | Fin rat

definition isNaN :: "number \<Rightarrow> bool" where
  "isNaN n = (n = NaN)"

text \<open>Truthiness of an optional number: \<^verbatim>\<open>undefined\<close>, \<^verbatim>\<open>NaN\<close> and zero are falsy.\<close>

definition truthy_num :: "number option \<Rightarrow> bool" where
  "truthy_num v = (case v of None \<Rightarrow> False | Some n \<Rightarrow> n \<noteq> NaN \<and> n \<noteq> Fin 0)"

definition is_digit :: "char \<Rightarrow> bool" where
  "is_digit c = (c \<in> set ''0123456789'')"

definition digit_val :: "char \<Rightarrow> nat" where
  "digit_val c = of_char c - 48"

text \<open>The value of a string of decimal digits, most significant first.\<close>

definition digits_val :: "string \<Rightarrow> nat" where
  "digits_val ds = foldl (\<lambda>acc c. 10 * acc + digit_val c) 0 ds"

text \<open>
  The exponent part of a decimal literal: \<^verbatim>\<open>e\<close> or \<^verbatim>\<open>E\<close>, an optional sign and at
  least one digit. Anything else is not part of the literal and the factor is 1.
\<close>

definition exponent_factor :: "string \<Rightarrow> rat" where
  "exponent_factor s =
     (case s of
        [] \<Rightarrow> 1
      | c # r \<Rightarrow>
          if c = CHR ''e'' \<or> c = CHR ''E'' then
            (let neg = startsWith r CHR ''-'';
                 r' = (if startsWith r CHR ''-'' \<or> startsWith r CHR ''+'' then drop 1 r else r);
                 ds = takeWhile is_digit r'
             in if ds = [] then 1
                else if neg then 1 / 10 ^ digits_val ds else 10 ^ digits_val ds)
          else 1)"

text \<open>
  The unsigned part of what \<^verbatim>\<open>parseFloat\<close> reads: \<^verbatim>\<open>Infinity\<close>, or the longest
  prefix that is a decimal literal (digits, an optional fraction, an optional exponent;
  at least one digit before the exponent). No such prefix gives not-a-number.
\<close>

definition parse_unsigned :: "string \<Rightarrow> number" where
  "parse_unsigned s =
     (if take 8 s = ''Infinity'' then PosInf
      else
        (let ip = takeWhile is_digit s;
             r1 = dropWhile is_digit s;
             fp = (if startsWith r1 CHR ''.'' then takeWhile is_digit (drop 1 r1) else []);
             r2 = (if startsWith r1 CHR ''.'' then dropWhile is_digit (drop 1 r1) else r1)
         in if ip = [] \<and> fp = [] then NaN
            else Fin ((of_nat (digits_val ip) + of_nat (digits_val fp) / 10 ^ length fp)
                      * exponent_factor r2)))"

definition negate :: "number \<Rightarrow> number" where
  "negate n = (case n of NaN \<Rightarrow> NaN | PosInf \<Rightarrow> NegInf | NegInf \<Rightarrow> PosInf | Fin r \<Rightarrow> Fin (- r))"

text \<open>\<^verbatim>\<open>parseFloat(s)\<close>: leading white space is skipped, then an optional sign.\<close>

definition parseFloat :: "string \<Rightarrow> number" where
  "parseFloat s =
     (let t = dropWhile is_ws s in
      if startsWith t CHR ''-'' then negate (parse_unsigned (drop 1 t))
      else if startsWith t CHR ''+'' then parse_unsigned (drop 1 t)
      else parse_unsigned t)"

text \<open>
  \<^verbatim>\<open>parseFloat(v)\<close> of a value that may be \<^verbatim>\<open>undefined\<close>: the argument is turned into
  the string \<^verbatim>\<open>undefined\<close> first, which is no number.
\<close>

definition parseFloat_opt :: "string option \<Rightarrow> number" where
  "parseFloat_opt v = (case v of None \<Rightarrow> parseFloat ''undefined'' | Some s \<Rightarrow> parseFloat s)"

text \<open>The decimal digits of a natural number, as \<^verbatim>\<open>String(n)\<close> writes an index.\<close>

definition digit_char :: "nat \<Rightarrow> char" where
  "digit_char d = ''0123456789'' ! d"

fun nat_str :: "nat \<Rightarrow> string" where
  "nat_str n = (if n < 10 then [digit_char n] else nat_str (n div 10) @ [digit_char (n mod 10)])"

declare nat_str.simps [simp del]

text \<open>
  The digits of a fraction \<open>0 \<le> f < 1\<close> after the decimal point, until nothing is left.
  Every double has finitely many of them; the fuel bounds the recursion for the rationals
  that are not decimal fractions.
\<close>

fun frac_digits :: "nat \<Rightarrow> rat \<Rightarrow> string" where
  "frac_digits fuel f =
     (if fuel = 0 \<or> f = 0 then []
      else digit_char (nat \<lfloor>f * 10\<rfloor>) # frac_digits (fuel - 1) (f * 10 - of_int \<lfloor>f * 10\<rfloor>))"

declare frac_digits.simps [simp del]

definition strip_zeros :: "string \<Rightarrow> string" where
  "strip_zeros ds = rev (dropWhile (\<lambda>c. c = CHR ''0'') (rev ds))"

text \<open>
  \<^verbatim>\<open>Number::toString\<close> of a positive finite value, from its significant digits \<open>ds\<close>
  (\<open>k\<close> of them) and the position \<open>n\<close> of the decimal point, the value being
  \<open>0.ds \<times> 10\<^sup>n\<close>: an integer up to 21 digits, a decimal fraction, a fraction with up to
  five leading zeros, and the exponent notation otherwise.
\<close>

definition format_digits :: "string \<Rightarrow> int \<Rightarrow> string" where
  "format_digits ds n =
     (let k = int (length ds) in
      if k \<le> n \<and> n \<le> 21 then ds @ replicate (nat (n - k)) CHR ''0''
      else if 0 < n \<and> n \<le> 21 then take (nat n) ds @ ''.'' @ drop (nat n) ds
      else if - 6 < n \<and> n \<le> 0 then ''0.'' @ replicate (nat (- n)) CHR ''0'' @ ds
      else (if k = 1 then ds else take 1 ds @ ''.'' @ drop 1 ds)
           @ ''e'' @ (if n - 1 < 0 then ''-'' else ''+'') @ nat_str (nat \<bar>n - 1\<bar>))"

definition pos_to_string :: "rat \<Rightarrow> string" where
  "pos_to_string r =
     (let ip = nat \<lfloor>r\<rfloor>;
          fds = frac_digits 1100 (r - of_int \<lfloor>r\<rfloor>)
      in if ip > 0 then format_digits (strip_zeros (nat_str ip @ fds)) (int (length (nat_str ip)))
         else format_digits (strip_zeros (dropWhile (\<lambda>c. c = CHR ''0'') fds))
                (- int (length (takeWhile (\<lambda>c. c = CHR ''0'') fds))))"

text \<open>
  The default rendering of a number, \<^verbatim>\<open>String(x)\<close> and \<^verbatim>\<open>`${x}`\<close>. The runtime
  prints the shortest decimal that reads back as the same double; the model prints the
  decimal expansion of the rational, which is the same text for a decimal of at most 15
  significant digits.
\<close>

definition numToString :: "number \<Rightarrow> string" where
  "numToString x =
     (case x of
        NaN \<Rightarrow> ''NaN''
      | PosInf \<Rightarrow> ''Infinity''
      | NegInf \<Rightarrow> ''-Infinity''
      | Fin r \<Rightarrow> if r = 0 then ''0''
                 else if r < 0 then ''-'' @ pos_to_string (- r)
                 else pos_to_string r)"

text \<open>
  \<^verbatim>\<open>x.toFixed(f)\<close>: a value that is not finite is rendered as by default; the sign is
  split off; a magnitude of \<open>10\<^sup>2\<^sup>1\<close> or more is rendered as by default; otherwise the
  magnitude is rounded to \<open>f\<close> decimals, a tie going up, and written with exactly \<open>f\<close>
  digits after the point.
\<close>

definition toFixed :: "nat \<Rightarrow> number \<Rightarrow> string" where
  "toFixed f x =
     (case x of
        Fin r \<Rightarrow>
          (let s = (if r < 0 then ''-'' else []);
               a = \<bar>r\<bar>
           in if a \<ge> 10 ^ 21 then s @ numToString (Fin a)
              else
                (let m = nat_str (nat \<lfloor>a * 10 ^ f + 1 / 2\<rfloor>);
                     m' = (if length m \<le> f then replicate (f + 1 - length m) CHR ''0'' @ m else m)
                 in if f = 0 then s @ m
                    else s @ take (length m' - f) m' @ ''.'' @ drop (length m' - f) m'))
      | _ \<Rightarrow> numToString x)"

section \<open>Objects of the runtime\<close>

text \<open>
  An object whose keys are strings is modelled by its own properties, as an association
  list in the order in which the runtime enumerates them: the keys that are array indices
  first, in ascending numeric order, then the other keys in the order of their creation.
  Properties inherited from the prototype are left out of the model.
\<close>

type_synonym 'v obj = "(string \<times> 'v) list"

text \<open>A canonical array index: decimal digits without a leading zero, below \<open>2\<^sup>3\<^sup>2 - 1\<close>.\<close>

definition is_index :: "string \<Rightarrow> bool" where
  "is_index k = (k \<noteq> [] \<and> list_all is_digit k \<and> (k = ''0'' \<or> hd k \<noteq> CHR ''0'')
                 \<and> length k \<le> 10 \<and> digits_val k < 4294967295)"

text \<open>Where a new key goes: an index before the first key that is no smaller index.\<close>

fun obj_insert :: "'v obj \<Rightarrow> string \<Rightarrow> 'v \<Rightarrow> 'v obj" where
  "obj_insert [] k v = [(k, v)]"
| "obj_insert ((k', v') # rest) k v =
     (if is_index k \<and> (\<not> is_index k' \<or> digits_val k < digits_val k')
      then (k, v) # (k', v') # rest
      else (k', v') # obj_insert rest k v)"

text \<open>\<^verbatim>\<open>o[k] = v\<close>: an existing key keeps its place and takes the new value.\<close>

definition obj_set :: "'v obj \<Rightarrow> string \<Rightarrow> 'v \<Rightarrow> 'v obj" where
  "obj_set ob k v =
     (if k \<in> set (map fst ob) then map (\<lambda>(k', v'). if k' = k then (k', v) else (k', v')) ob
      else obj_insert ob k v)"

text \<open>\<^verbatim>\<open>xs[i]\<close>, which is \<^verbatim>\<open>undefined\<close> out of range.\<close>

definition nth_opt :: "'a list \<Rightarrow> nat \<Rightarrow> 'a option" where
  "nth_opt xs i = (if i < length xs then Some (xs ! i) else None)"

text \<open>\<^verbatim>\<open>`${v}`\<close> of a string that may be \<^verbatim>\<open>undefined\<close>.\<close>

definition str_of :: "string option \<Rightarrow> string" where
  "str_of v = (case v of None \<Rightarrow> ''undefined'' | Some s \<Rightarrow> s)"

text \<open>Truthiness of an optional string: \<^verbatim>\<open>undefined\<close> and the empty string are falsy.\<close>

definition truthy_str :: "string option \<Rightarrow> bool" where
  "truthy_str v = (case v of None \<Rightarrow> False | Some s \<Rightarrow> s \<noteq> [])"

text \<open>\<^verbatim>\<open>xs.join(sep)\<close>\<close>

fun join :: "string \<Rightarrow> string list \<Rightarrow> string" where
  "join sep [] = []"
| "join sep [x] = x"
| "join sep (x # y # ys) = x @ sep @ join sep (y # ys)"

section \<open>The data model\<close>

text \<open>
  The interfaces \<^verbatim>\<open>SP1Point\<close>, \<^verbatim>\<open>SP1Header\<close> and \<^verbatim>\<open>SP1Data\<close>. An optional field is
  an option, \<open>None\<close> being \<^verbatim>\<open>undefined\<close>. The fields \<^verbatim>\<open>id\<close>, \<^verbatim>\<open>x\<close> and \<^verbatim>\<open>y\<close> carry
  a suffix here. The identifier is declared a string, but the reader of CSV text stores
  what it reads from a row, which is \<^verbatim>\<open>undefined\<close> in a row that is too short; so
  the field is an option as well.
\<close>

record SP1Point =
  id_p :: "string option"
  x_p :: number
  y_p :: number
  elevation :: "number option"
  attributes :: "string obj option"

record SP1Header =
  version :: "string option"
  survey :: "string option"
  datum :: "string option"
  projection :: "string option"
  comments :: "string list option"

record SP1Data =
  header :: SP1Header
  points :: "SP1Point list"

definition empty_header :: SP1Header where
  "empty_header = \<lparr>version = None, survey = None, datum = None, projection = None, comments = None\<rparr>"

text \<open>
  What the program can raise: \<^verbatim>\<open>new Error(message)\<close>, thrown by the reader of CSV text,
  and the \<^verbatim>\<open>TypeError\<close> of the runtime for a method call on \<^verbatim>\<open>undefined\<close>.
\<close>

datatype error = Error string | TypeError

section \<open>parseSP1File\<close>

text \<open>
  The variables of the loop over the lines: the header and the points built so far, and
  the flag \<^verbatim>\<open>inHeader\<close>.
\<close>

record parse_state =
  st_header :: SP1Header
  st_points :: "SP1Point list"
  inHeader :: bool

definition init_state :: parse_state where
  "init_state = \<lparr>st_header = empty_header, st_points = [], inHeader = True\<rparr>"

text \<open>
  A comment line: \<^verbatim>\<open>header.comments = header.comments || []\<close>, then the push of the
  text behind the marker, trimmed.
\<close>

definition push_comment :: "SP1Header \<Rightarrow> string \<Rightarrow> SP1Header" where
  "push_comment h line =
     h\<lparr>comments := Some ((case comments h of None \<Rightarrow> [] | Some cs \<Rightarrow> cs) @ [trim (substring1 line)])\<rparr>"

text \<open>
  A header line: \<^verbatim>\<open>const [key, value] = line.split(':').map(s => s.trim())\<close> takes the
  first two pieces of the split, each \<^verbatim>\<open>undefined\<close> when the piece is missing, and
  \<^verbatim>\<open>key.toLowerCase()\<close> raises on \<^verbatim>\<open>undefined\<close>. The \<^verbatim>\<open>switch\<close> stores the
  value under one of four keys and ignores every other key.
\<close>

definition header_line :: "SP1Header \<Rightarrow> string \<Rightarrow> error + SP1Header" where
  "header_line h line =
     (let parts = map trim (split_on CHR '':'' line);
          key = nth_opt parts 0;
          val = nth_opt parts 1
      in case key of
           None \<Rightarrow> Inl TypeError
         | Some k \<Rightarrow>
             Inr (if toLowerCase k = ''version'' then h\<lparr>version := val\<rparr>
                  else if toLowerCase k = ''survey'' then h\<lparr>survey := val\<rparr>
                  else if toLowerCase k = ''datum'' then h\<lparr>datum := val\<rparr>
                  else if toLowerCase k = ''projection'' then h\<lparr>projection := val\<rparr>
                  else h))"

text \<open>
  The attributes of a data line: \<^verbatim>\<open>attributes[`attr${i - 3}`] = parts[i]\<close> for the
  indices from 4 on. The keys are created in this order, they differ from each other and
  none is an array index, so the object enumerates them in this order.
\<close>

definition line_attributes :: "string list \<Rightarrow> string obj" where
  "line_attributes parts = map (\<lambda>i. (''attr'' @ nat_str (i - 3), parts ! i)) [4..<length parts]"

text \<open>A data line gives a point when it has at least three pieces, and nothing otherwise.\<close>

definition data_line :: "string \<Rightarrow> SP1Point option" where
  "data_line line =
     (let parts = split_ws line in
      if length parts \<ge> 3 then
        Some \<lparr>id_p = Some (parts ! 0),
              x_p = parseFloat (parts ! 1),
              y_p = parseFloat (parts ! 2),
              elevation = (if length parts > 3 \<and> \<not> isNaN (parseFloat (parts ! 3))
                           then Some (parseFloat (parts ! 3)) else None),
              attributes = (if length parts > 4 then Some (line_attributes parts) else None)\<rparr>
      else None)"

text \<open>The body of the loop, for one line.\<close>

definition step :: "parse_state \<Rightarrow> string \<Rightarrow> error + parse_state" where
  "step st line =
     (if line = [] \<or> startsWith line CHR ''#'' then
        (if startsWith line CHR ''#''
         then Inr (st\<lparr>st_header := push_comment (st_header st) line\<rparr>)
         else Inr st)
      else if inHeader st \<and> includes_char line CHR '':'' then
        (case header_line (st_header st) line of
           Inl e \<Rightarrow> Inl e
         | Inr h \<Rightarrow> Inr (st\<lparr>st_header := h\<rparr>))
      else
        (case data_line line of
           None \<Rightarrow> Inr (st\<lparr>inHeader := False\<rparr>)
         | Some p \<Rightarrow> Inr (st\<lparr>inHeader := False, st_points := st_points st @ [p]\<rparr>)))"

text \<open>The loop: it stops at the first line that raises.\<close>

fun run :: "parse_state \<Rightarrow> string list \<Rightarrow> error + parse_state" where
  "run st [] = Inr st"
| "run st (l # ls) = (case step st l of Inl e \<Rightarrow> Inl e | Inr st' \<Rightarrow> run st' ls)"

definition parseSP1File :: "string \<Rightarrow> error + SP1Data" where
  "parseSP1File content =
     (case run init_state (content_lines content) of
        Inl e \<Rightarrow> Inl e
      | Inr st \<Rightarrow> Inr \<lparr>header = st_header st, points = st_points st\<rparr>)"

section \<open>generateSP1Content\<close>

text \<open>A header field is written when it is truthy.\<close>

definition header_field :: "string \<Rightarrow> string option \<Rightarrow> string" where
  "header_field label v = (if truthy_str v then label @ str_of v @ [CHR 0x0A] else [])"

definition point_line :: "SP1Point \<Rightarrow> string" where
  "point_line p =
     str_of (id_p p) @ [CHR 0x09] @ toFixed 6 (x_p p) @ [CHR 0x09] @ toFixed 6 (y_p p)
     @ (case elevation p of None \<Rightarrow> [] | Some e \<Rightarrow> [CHR 0x09] @ toFixed 3 e)
     @ (case attributes p of None \<Rightarrow> [] | Some a \<Rightarrow> concat (map (\<lambda>v. [CHR 0x09] @ v) (map snd a)))"

text \<open>\<^verbatim>\<open>`# ${comment}`\<close>\<close>

definition comment_line :: "string \<Rightarrow> string" where
  "comment_line c = ''# '' @ c"

definition generateSP1Content :: "SP1Data \<Rightarrow> string" where
  "generateSP1Content data =
     (case comments (header data) of
        None \<Rightarrow> []
      | Some cs \<Rightarrow> join [CHR 0x0A] (map comment_line cs) @ [CHR 0x0A])
     @ header_field ''Version: '' (version (header data))
     @ header_field ''Survey: '' (survey (header data))
     @ header_field ''Datum: '' (datum (header data))
     @ header_field ''Projection: '' (projection (header data))
     @ [CHR 0x0A]
     @ concat (map (\<lambda>p. point_line p @ [CHR 0x0A]) (points data))"

section \<open>convertToGeoJSON\<close>

text \<open>The values of the properties of a feature.\<close>

datatype jsval = Undefined | Str string | Num number

definition str_val :: "string option \<Rightarrow> jsval" where
  "str_val v = (case v of None \<Rightarrow> Undefined | Some s \<Rightarrow> Str s)"

definition num_val :: "number option \<Rightarrow> jsval" where
  "num_val v = (case v of None \<Rightarrow> Undefined | Some n \<Rightarrow> Num n)"

record Geometry =
  g_type :: string
  coordinates :: "number list"

record Feature =
  f_type :: string
  geometry :: Geometry
  properties :: "jsval obj"

record Crs =
  crs_type :: string
  crs_name :: string

record FeatureCollection =
  fc_type :: string
  features :: "Feature list"
  crs :: Crs

text \<open>\<^verbatim>\<open>point.elevation || 0\<close>\<close>

definition elevation_or_0 :: "number option \<Rightarrow> number" where
  "elevation_or_0 e = (if truthy_num e then the e else Fin 0)"

text \<open>
  \<^verbatim>\<open>{ id: point.id, elevation: point.elevation, ...point.attributes }\<close>: the two
  keys, then each attribute stored in turn, over a key that is there already.
\<close>

definition spread :: "jsval obj \<Rightarrow> string obj option \<Rightarrow> jsval obj" where
  "spread ob a =
     (case a of None \<Rightarrow> ob | Some kvs \<Rightarrow> foldl (\<lambda>acc (k, v). obj_set acc k (Str v)) ob kvs)"

definition feature :: "SP1Point \<Rightarrow> Feature" where
  "feature p =
     \<lparr>f_type = ''Feature'',
      geometry = \<lparr>g_type = ''Point'',
                  coordinates = [x_p p, y_p p, elevation_or_0 (elevation p)]\<rparr>,
      properties = spread [(''id'', str_val (id_p p)), (''elevation'', num_val (elevation p))]
                     (attributes p)\<rparr>"

definition convertToGeoJSON :: "SP1Data \<Rightarrow> FeatureCollection" where
  "convertToGeoJSON sp1Data =
     \<lparr>fc_type = ''FeatureCollection'',
      features = map feature (points sp1Data),
      crs = \<lparr>crs_type = ''name'',
             crs_name = (if truthy_str (projection (header sp1Data))
                         then the (projection (header sp1Data)) else ''EPSG:4326'')\<rparr>\<rparr>"

section \<open>convertToCSV\<close>

text \<open>
  The keys of all points are collected in a set and \<^verbatim>\<open>Array.from(allAttributes).sort()\<close>
  sorts them by code units: each key once, in ascending lexicographic order.
\<close>

definition point_keys :: "SP1Point \<Rightarrow> string list" where
  "point_keys p = (case attributes p of None \<Rightarrow> [] | Some a \<Rightarrow> map fst a)"

definition attributeKeys :: "SP1Data \<Rightarrow> string list" where
  "attributeKeys sp1Data = sort (remdups (concat (map point_keys (points sp1Data))))"

text \<open>\<^verbatim>\<open>point.elevation || ''\<close> inside the template\<close>

definition elevation_field :: "number option \<Rightarrow> string" where
  "elevation_field e = (if truthy_num e then numToString (the e) else [])"

text \<open>\<^verbatim>\<open>point.attributes?.[key] || ''\<close> inside the template\<close>

definition attribute_field :: "SP1Point \<Rightarrow> string \<Rightarrow> string" where
  "attribute_field p key =
     (case attributes p of
        None \<Rightarrow> []
      | Some a \<Rightarrow> if truthy_str (map_of a key) then the (map_of a key) else [])"

definition csv_header_row :: "string list \<Rightarrow> string" where
  "csv_header_row keys = ''ID,X,Y,Elevation'' @ concat (map (\<lambda>key. '','' @ key) keys)"

definition csv_row :: "string list \<Rightarrow> SP1Point \<Rightarrow> string" where
  "csv_row keys p =
     str_of (id_p p) @ '','' @ numToString (x_p p) @ '','' @ numToString (y_p p) @ '',''
     @ elevation_field (elevation p)
     @ concat (map (\<lambda>key. '','' @ attribute_field p key) keys)"

definition convertToCSV :: "SP1Data \<Rightarrow> string" where
  "convertToCSV sp1Data =
     csv_header_row (attributeKeys sp1Data) @ [CHR 0x0A]
     @ concat (map (\<lambda>p. csv_row (attributeKeys sp1Data) p @ [CHR 0x0A]) (points sp1Data))"

section \<open>parseCSVToSP1\<close>

text \<open>
  \<^verbatim>\<open>columns.findIndex(col => /^name$/i.test(col))\<close>: the first index whose column is
  the name up to the case of its letters, \<open>None\<close> standing for \<open>-1\<close>.
\<close>

definition matches_ci :: "string list \<Rightarrow> string \<Rightarrow> bool" where
  "matches_ci names col = (toLowerCase col \<in> set names)"

fun findIndex_from :: "nat \<Rightarrow> ('a \<Rightarrow> bool) \<Rightarrow> 'a list \<Rightarrow> nat option" where
  "findIndex_from i P [] = None"
| "findIndex_from i P (x # xs) = (if P x then Some i else findIndex_from (Suc i) P xs)"

definition findIndex :: "('a \<Rightarrow> bool) \<Rightarrow> 'a list \<Rightarrow> nat option" where
  "findIndex P xs = findIndex_from 0 P xs"

text \<open>\<^verbatim>\<open>values[i]\<close> at an index that may be \<open>-1\<close>\<close>

definition nth_at :: "'a list \<Rightarrow> nat option \<Rightarrow> 'a option" where
  "nth_at xs i = (case i of None \<Rightarrow> None | Some j \<Rightarrow> nth_opt xs j)"

text \<open>
  The attributes of a row: every column other than the four located ones whose cell is
  truthy, stored under the name of the column.
\<close>

definition row_attributes ::
  "string list \<Rightarrow> nat option \<Rightarrow> nat option \<Rightarrow> nat option \<Rightarrow> nat option \<Rightarrow> string list \<Rightarrow> string obj" where
  "row_attributes columns idIndex xIndex yIndex elevIndex vals =
     foldl (\<lambda>acc j.
              if Some j \<noteq> idIndex \<and> Some j \<noteq> xIndex \<and> Some j \<noteq> yIndex \<and> Some j \<noteq> elevIndex
                 \<and> truthy_str (nth_opt vals j)
              then obj_set acc (columns ! j) (vals ! j) else acc)
       [] [0..<length columns]"

definition row_point ::
  "string list \<Rightarrow> nat option \<Rightarrow> nat option \<Rightarrow> nat option \<Rightarrow> nat option \<Rightarrow> string list \<Rightarrow> SP1Point" where
  "row_point columns idIndex xIndex yIndex elevIndex vals =
     \<lparr>id_p = nth_at vals idIndex,
      x_p = parseFloat_opt (nth_at vals xIndex),
      y_p = parseFloat_opt (nth_at vals yIndex),
      elevation = (if elevIndex \<noteq> None \<and> truthy_str (nth_at vals elevIndex)
                      \<and> \<not> isNaN (parseFloat_opt (nth_at vals elevIndex))
                   then Some (parseFloat_opt (nth_at vals elevIndex)) else None),
      attributes = (let a = row_attributes columns idIndex xIndex yIndex elevIndex vals
                    in if length a > 0 then Some a else None)\<rparr>"

text \<open>The loop over the rows: a row of fewer than three cells is skipped.\<close>

definition csv_rows ::
  "string list \<Rightarrow> nat option \<Rightarrow> nat option \<Rightarrow> nat option \<Rightarrow> nat option \<Rightarrow> string list \<Rightarrow> SP1Point list" where
  "csv_rows columns idIndex xIndex yIndex elevIndex ls =
     concat (map (\<lambda>l. let vals = map trim (split_on CHR '','' l)
                       in if length vals < 3 then []
                          else [row_point columns idIndex xIndex yIndex elevIndex vals]) ls)"

definition parseCSVToSP1 :: "string \<Rightarrow> SP1Header \<Rightarrow> error + SP1Data" where
  "parseCSVToSP1 csvContent hdr =
     (case content_lines csvContent of
        [] \<Rightarrow> Inl (Error ''Empty CSV file'')
      | headerLine # rest \<Rightarrow>
          (let columns = map trim (split_on CHR '','' headerLine);
               idIndex = findIndex (matches_ci [''id'']) columns;
               xIndex = findIndex (matches_ci [''x'']) columns;
               yIndex = findIndex (matches_ci [''y'']) columns;
               elevIndex = findIndex (matches_ci [''elevation'', ''z'']) columns
           in if idIndex = None \<or> xIndex = None \<or> yIndex = None
              then Inl (Error ''CSV must contain ID, X, and Y columns'')
              else Inr \<lparr>header = hdr,
                        points = csv_rows columns idIndex xIndex yIndex elevIndex rest\<rparr>))"

section \<open>Notions used to state the properties\<close>

text \<open>The texts of the comment lines among the given lines, in their order.\<close>

definition comment_texts :: "string list \<Rightarrow> string list" where
  "comment_texts ls = map (\<lambda>l. trim (substring1 l)) (filter (\<lambda>l. startsWith l CHR ''#'') ls)"

text \<open>The comments of a header after further comment lines were read.\<close>

definition add_comments :: "string list option \<Rightarrow> string list \<Rightarrow> string list option" where
  "add_comments old new =
     (if new = [] then old else Some ((case old of None \<Rightarrow> [] | Some cs \<Rightarrow> cs) @ new))"

text \<open>A number is finite when it is neither not-a-number nor an infinity.\<close>

definition is_finite :: "number \<Rightarrow> bool" where
  "is_finite n = (case n of Fin r \<Rightarrow> True | _ \<Rightarrow> False)"

text \<open>
  The column names of CSV text: its first line that is not blank, split at the commas,
  each name trimmed.
\<close>

definition header_columns :: "string \<Rightarrow> string list" where
  "header_columns csvContent = map trim (split_on CHR '','' (hd (content_lines csvContent)))"

text \<open>Some column has one of the given names.\<close>

definition has_column :: "string list \<Rightarrow> string list \<Rightarrow> bool" where
  "has_column names cols = (\<exists>col \<in> set cols. col \<in> set names)"

text \<open>The attribute keys that occur in some point.\<close>

definition all_keys :: "SP1Data \<Rightarrow> string set" where
  "all_keys d = (\<Union>p \<in> set (points d). case attributes p of None \<Rightarrow> {} | Some a \<Rightarrow> fst ` set a)"

text \<open>
  A finite number of magnitude below \<open>10\<^sup>2\<^sup>1\<close>, the range in which \<^verbatim>\<open>toFixed\<close> writes
  plain decimals.
\<close>

definition plain :: "number \<Rightarrow> bool" where
  "plain n = (case n of Fin r \<Rightarrow> \<bar>r\<bar> < 10 ^ 21 | _ \<Rightarrow> False)"

text \<open>
  A number rounded to \<open>f\<close> decimals, half away from zero; a value that is not finite is
  left as it is.
\<close>

definition round_to :: "nat \<Rightarrow> number \<Rightarrow> number" where
  "round_to f x =
     (case x of
        Fin r \<Rightarrow> Fin ((if r < 0 then - 1 else 1) * of_int \<lfloor>\<bar>r\<bar> * 10 ^ f + 1 / 2\<rfloor> / 10 ^ f)
      | _ \<Rightarrow> x)"

text \<open>A text that is not empty and neither begins nor ends with white space.\<close>

definition trimmed :: "string \<Rightarrow> bool" where
  "trimmed l = (l \<noteq> [] \<and> \<not> is_ws (hd l) \<and> \<not> is_ws (last l))"

text \<open>A piece of text between white space: not empty and free of white space.\<close>

definition token :: "string \<Rightarrow> bool" where
  "token t = (t \<noteq> [] \<and> list_all (\<lambda>c. \<not> is_ws c) t)"

text \<open>
  The lines that reach the data branch of the loop of \<^verbatim>\<open>parseSP1File\<close>, the flag being
  \<^verbatim>\<open>inHeader\<close>: comment lines never do, lines with a colon do not while the header
  lasts, and the first line that does ends the header.
\<close>

fun data_lines :: "bool \<Rightarrow> string list \<Rightarrow> string list" where
  "data_lines h [] = []"
| "data_lines h (l # ls) =
     (if l = [] \<or> startsWith l CHR ''#'' then data_lines h ls
      else if h \<and> includes_char l CHR '':'' then data_lines h ls
      else l # data_lines False ls)"

text \<open>
  A data line in the layout \<^verbatim>\<open>id x y [elevation] [attr...]\<close>: at least three pieces, the
  second and the third plain numbers, and the fourth, when there is one, a plain number
  as well.
\<close>

definition point_line_ok :: "string \<Rightarrow> bool" where
  "point_line_ok l =
     (3 \<le> length (split_ws l)
      \<and> plain (parseFloat (split_ws l ! 1))
      \<and> plain (parseFloat (split_ws l ! 2))
      \<and> (3 < length (split_ws l) \<longrightarrow> plain (parseFloat (split_ws l ! 3))))"

text \<open>A text all of whose data lines are in that layout.\<close>

definition well_formed :: "string \<Rightarrow> bool" where
  "well_formed t = list_all point_line_ok (data_lines True (content_lines t))"

text \<open>A header none of whose texts contains a line feed.\<close>

definition one_line :: "string option \<Rightarrow> bool" where
  "one_line v = (case v of None \<Rightarrow> True | Some s \<Rightarrow> CHR 0x0A \<notin> set s)"

definition header_one_line :: "SP1Header \<Rightarrow> bool" where
  "header_one_line h =
     (one_line (version h) \<and> one_line (survey h) \<and> one_line (datum h) \<and> one_line (projection h)
      \<and> (case comments h of None \<Rightarrow> True | Some cs \<Rightarrow> list_all (\<lambda>c. CHR 0x0A \<notin> set c) cs))"

text \<open>The fields that \<^verbatim>\<open>generateSP1Content\<close> writes behind the identifier of a point.\<close>

definition point_fields :: "SP1Point \<Rightarrow> string list" where
  "point_fields p =
     [toFixed 6 (x_p p), toFixed 6 (y_p p)]
     @ (case elevation p of None \<Rightarrow> [] | Some e \<Rightarrow> [toFixed 3 e])
     @ (case attributes p of None \<Rightarrow> [] | Some a \<Rightarrow> map snd a)"

section \<open>Properties of the readers and writers\<close>

subsection \<open>The reader of SP1 text never raises\<close>

lemma split_from_not_Nil: "split_from sep cur s \<noteq> []"
  by (induction s arbitrary: cur) auto

lemma header_line_Inr: "\<exists>h'. header_line h line = Inr h'"
proof -
  obtain p ps where "split_on CHR '':'' line = p # ps"
    using split_from_not_Nil [of "CHR '':''" "[]" line]
    by (cases "split_on CHR '':'' line") (auto simp: split_on_def)
  then show ?thesis
    by (simp add: header_line_def nth_opt_def Let_def)
qed

lemma step_Inr: "\<exists>st'. step st line = Inr st'"
proof -
  obtain h' where "header_line (st_header st) line = Inr h'"
    using header_line_Inr by blast
  then show ?thesis
    by (simp add: step_def split: option.split)
qed

lemma run_Inr: "\<exists>st'. run st ls = Inr st'"
proof (induction ls arbitrary: st)
  case Nil
  show ?case by simp
next
  case (Cons l ls)
  obtain st1 where "step st l = Inr st1" using step_Inr by blast
  with Cons.IH [of st1] show ?case by simp
qed

text \<open>
  Claim C6. \<^verbatim>\<open>parseSP1File\<close> is total: on every content it returns a value and raises
  nothing (the one call that could raise, \<^verbatim>\<open>key.toLowerCase()\<close>, always has a key,
  since a split has at least one piece); the empty content gives the empty header and no
  points.
\<close>

theorem parseSP1File_total:
  "(\<exists>d. parseSP1File content = Inr d)
   \<and> parseSP1File [] = Inr \<lparr>header = empty_header, points = []\<rparr>"
proof
  obtain st' where "run init_state (content_lines content) = Inr st'"
    using run_Inr by blast
  then show "\<exists>d. parseSP1File content = Inr d"
    by (simp add: parseSP1File_def)
  show "parseSP1File [] = Inr \<lparr>header = empty_header, points = []\<rparr>"
    by (simp add: parseSP1File_def content_lines_def split_on_def trim_def init_state_def)
qed

theorem parseSP1File_total_witness:
  "(\<exists>d. parseSP1File ''P1 10 20'' = Inr d)
   \<and> parseSP1File [] = Inr \<lparr>header = empty_header, points = []\<rparr>"
  using parseSP1File_total [of "''P1 10 20''"] by simp

subsection \<open>A header value that contains a colon\<close>

text \<open>
  Claim C1. The claim is that a header line is split at its first colon only, so that
  the value of \<^verbatim>\<open>Projection: EPSG:32633\<close> is \<^verbatim>\<open>EPSG:32633\<close>. The code splits at
  every colon and keeps the first two pieces: the stored value is \<^verbatim>\<open>EPSG\<close>.
\<close>

theorem parseSP1File_projection_truncated:
  "parseSP1File ''Projection: EPSG:32633''
   = Inr \<lparr>header = \<lparr>version = None, survey = None, datum = None,
                      projection = Some ''EPSG'', comments = None\<rparr>,
           points = []\<rparr>"
  by code_simp

subsection \<open>The elevation field of a CSV row\<close>

text \<open>
  Claim C2. The claim is that the elevation field of a row is empty exactly when the
  point has no elevation, and is the rendering of the elevation otherwise, 0 included.
  The code writes \<^verbatim>\<open>point.elevation || ''\<close>, and 0 is falsy: a point at elevation 0
  gets the empty field.
\<close>

theorem convertToCSV_zero_elevation:
  "convertToCSV \<lparr>header = empty_header,
                 points = [\<lparr>id_p = Some ''P1'', x_p = Fin 1, y_p = Fin 2,
                            elevation = Some (Fin 0), attributes = None\<rparr>]\<rparr>
   = ''ID,X,Y,Elevation'' @ [CHR 0x0A] @ ''P1,1,2,'' @ [CHR 0x0A]"
  by code_simp

subsection \<open>Comment lines\<close>

lemma header_line_comments:
  "header_line h line = Inr h' \<Longrightarrow> comments h' = comments h"
  by (auto simp: header_line_def Let_def split: option.splits if_splits)

lemma step_comment:
  assumes "startsWith line CHR ''#''"
  shows "step st line = Inr (st\<lparr>st_header := push_comment (st_header st) line\<rparr>)"
  using assms by (simp add: step_def)

lemma step_other_comments:
  assumes "\<not> startsWith line CHR ''#''" and "step st line = Inr st'"
  shows "comments (st_header st') = comments (st_header st)"
  using assms
  by (auto simp: step_def split: if_splits sum.splits option.splits dest: header_line_comments)

lemma add_comments_push:
  "add_comments (comments (push_comment h l)) new
   = add_comments (comments h) (trim (substring1 l) # new)"
  by (simp add: add_comments_def push_comment_def split: option.split)

lemma run_comments:
  "run st ls = Inr st' \<Longrightarrow>
   comments (st_header st') = add_comments (comments (st_header st)) (comment_texts ls)"
proof (induction ls arbitrary: st)
  case Nil
  then show ?case by (simp add: comment_texts_def add_comments_def)
next
  case (Cons l ls)
  from Cons.prems obtain st1 where s1: "step st l = Inr st1" and r: "run st1 ls = Inr st'"
    by (auto split: sum.splits)
  have ih: "comments (st_header st') = add_comments (comments (st_header st1)) (comment_texts ls)"
    using Cons.IH [OF r] .
  show ?case
  proof (cases "startsWith l CHR ''#''")
    case True
    with s1 have "st1 = st\<lparr>st_header := push_comment (st_header st) l\<rparr>"
      by (simp add: step_comment)
    with ih True show ?thesis
      by (simp add: add_comments_push comment_texts_def)
  next
    case False
    have "comments (st_header st1) = comments (st_header st)"
      using False s1 by (rule step_other_comments)
    with ih False show ?thesis
      by (simp add: comment_texts_def)
  qed
qed

text \<open>
  Claim C9. A line that begins with \<^verbatim>\<open>#\<close> is a comment in whatever state the loop
  is, also after the header has ended: the loop goes on without raising, the text behind
  the marker, trimmed, is appended to the comments, no point is added, the flag
  \<^verbatim>\<open>inHeader\<close> and the other header fields keep their values. Over a whole content,
  the comments of the result are the texts of the comment lines in the order of the lines,
  and are absent when there is no comment line.
\<close>

theorem comment_lines:
  "(startsWith line CHR ''#'' \<longrightarrow>
      (\<exists>st'. step st line = Inr st'
         \<and> inHeader st' = inHeader st
         \<and> st_points st' = st_points st
         \<and> comments (st_header st')
             = Some ((case comments (st_header st) of None \<Rightarrow> [] | Some cs \<Rightarrow> cs)
                     @ [trim (drop 1 line)])
         \<and> version (st_header st') = version (st_header st)
         \<and> survey (st_header st') = survey (st_header st)
         \<and> datum (st_header st') = datum (st_header st)
         \<and> projection (st_header st') = projection (st_header st)))
   \<and> (\<exists>d. parseSP1File content = Inr d
         \<and> comments (header d)
             = (if \<exists>l \<in> set (content_lines content). startsWith l CHR ''#''
                then Some (map (\<lambda>l. trim (drop 1 l))
                            (filter (\<lambda>l. startsWith l CHR ''#'') (content_lines content)))
                else None))"
proof (intro conjI impI)
  assume "startsWith line CHR ''#''"
  then show "\<exists>st'. step st line = Inr st'
         \<and> inHeader st' = inHeader st
         \<and> st_points st' = st_points st
         \<and> comments (st_header st')
             = Some ((case comments (st_header st) of None \<Rightarrow> [] | Some cs \<Rightarrow> cs)
                     @ [trim (drop 1 line)])
         \<and> version (st_header st') = version (st_header st)
         \<and> survey (st_header st') = survey (st_header st)
         \<and> datum (st_header st') = datum (st_header st)
         \<and> projection (st_header st') = projection (st_header st)"
    by (simp add: step_comment push_comment_def substring1_def)
next
  obtain st' where r: "run init_state (content_lines content) = Inr st'"
    using run_Inr by blast
  have "comments (st_header st') = add_comments None (comment_texts (content_lines content))"
    using run_comments [OF r] by (simp add: init_state_def empty_header_def)
  then have "comments (st_header st')
             = (if \<exists>l \<in> set (content_lines content). startsWith l CHR ''#''
                then Some (map (\<lambda>l. trim (drop 1 l))
                            (filter (\<lambda>l. startsWith l CHR ''#'') (content_lines content)))
                else None)"
    by (auto simp: add_comments_def comment_texts_def substring1_def filter_empty_conv)
  with r show "\<exists>d. parseSP1File content = Inr d
         \<and> comments (header d)
             = (if \<exists>l \<in> set (content_lines content). startsWith l CHR ''#''
                then Some (map (\<lambda>l. trim (drop 1 l))
                            (filter (\<lambda>l. startsWith l CHR ''#'') (content_lines content)))
                else None)"
    by (simp add: parseSP1File_def)
qed

lemma content_lines_late: "content_lines (''P1 1 2'' @ [CHR 0x0A] @ ''# late: note'' @ [CHR 0x0A] @ ''#second'') = [''P1 1 2'', ''# late: note'', ''#second'']"
  by code_simp

theorem comment_lines_witness:
  "startsWith ''# late: note'' CHR ''#''
   \<and> (\<exists>st'. step (init_state\<lparr>inHeader := False\<rparr>) ''# late: note'' = Inr st'
         \<and> inHeader st' = False
         \<and> st_points st' = []
         \<and> comments (st_header st') = Some [''late: note''])
   \<and> (\<exists>d. parseSP1File (''P1 1 2'' @ [CHR 0x0A] @ ''# late: note'' @ [CHR 0x0A] @ ''#second'') = Inr d
         \<and> comments (header d) = Some [''late: note'', ''second''])"
proof -
  have h: "startsWith ''# late: note'' CHR ''#''" by (simp add: startsWith_def)
  have t: "trim '' late: note'' = ''late: note''" "trim ''second'' = ''second''" by code_simp+
  note inst = comment_lines [of "''# late: note''" "init_state\<lparr>inHeader := False\<rparr>" "''P1 1 2'' @ [CHR 0x0A] @ ''# late: note'' @ [CHR 0x0A] @ ''#second''"]
  show ?thesis
    using h inst unfolding content_lines_late
    by (auto simp: init_state_def empty_header_def startsWith_def t)
qed

subsection \<open>Data lines\<close>

lemma digit_val_digit_char: "d < 10 \<Longrightarrow> digit_val (digit_char d) = d"
proof -
  assume "d < 10"
  then have "d \<in> {0,1,2,3,4,5,6,7,8,9}" by auto
  then show ?thesis
    by (auto simp: digit_val_def digit_char_def)
qed

lemma digits_val_snoc: "digits_val (ds @ [c]) = 10 * digits_val ds + digit_val c"
  by (simp add: digits_val_def)

lemma digits_val_nat_str: "digits_val (nat_str n) = n"
proof (induction n rule: nat_str.induct)
  case (1 n)
  show ?case
  proof (cases "n < 10")
    case True
    then show ?thesis
      by (subst nat_str.simps) (simp add: digits_val_def digit_val_digit_char)
  next
    case False
    with "1" have "digits_val (nat_str (n div 10)) = n div 10" by simp
    with False show ?thesis
      by (subst nat_str.simps) (simp add: digits_val_snoc digit_val_digit_char)
  qed
qed

lemma nat_str_inj: "nat_str a = nat_str b \<Longrightarrow> a = b"
  by (metis digits_val_nat_str)

lemma line_attributes_keys_distinct: "distinct (map fst (line_attributes parts))"
proof -
  have "inj_on (\<lambda>i. ''attr'' @ nat_str (i - 3)) (set [4..<length parts])"
    by (rule inj_onI) (auto dest!: nat_str_inj)
  then show ?thesis
    by (simp add: line_attributes_def comp_def distinct_map)
qed

lemma line_attributes_lookup:
  assumes "4 \<le> i" and "i < length parts"
  shows "map_of (line_attributes parts) (''attr'' @ nat_str (i - 3)) = Some (parts ! i)"
proof -
  have "(''attr'' @ nat_str (i - 3), parts ! i) \<in> set (line_attributes parts)"
    using assms by (auto simp: line_attributes_def)
  then show ?thesis
    using line_attributes_keys_distinct by (simp add: map_of_eq_Some_iff)
qed

text \<open>
  Claim C5, as amended. A line that reaches the data branch of the loop (it is not a
  comment and, while the header lasts, has no colon) ends the header. Split at the runs of
  white space, fewer than three pieces add no point and raise nothing. Three or more give
  one point: the identifier is piece 0, \<^verbatim>\<open>x\<close> and \<^verbatim>\<open>y\<close> are pieces 1 and 2 read by
  \<^verbatim>\<open>parseFloat\<close>; piece 3 becomes the elevation exactly when \<^verbatim>\<open>parseFloat\<close> of it is
  not not-a-number, which includes the infinities; the pieces from index 4 on become the
  attributes, piece \<open>i\<close> under the key \<^verbatim>\<open>attr\<close> followed by \<open>i - 3\<close>, the keys being
  distinct, and there are no attributes when there are at most four pieces.
\<close>

theorem data_line_tokens:
  assumes "line \<noteq> []" and "\<not> startsWith line CHR ''#''"
    and "\<not> (inHeader st \<and> includes_char line CHR '':'')"
  shows "(length (split_ws line) < 3 \<longrightarrow> step st line = Inr (st\<lparr>inHeader := False\<rparr>))
    \<and> (3 \<le> length (split_ws line) \<longrightarrow>
         (\<exists>p. step st line = Inr (st\<lparr>inHeader := False, st_points := st_points st @ [p]\<rparr>)
            \<and> id_p p = Some (split_ws line ! 0)
            \<and> x_p p = parseFloat (split_ws line ! 1)
            \<and> y_p p = parseFloat (split_ws line ! 2)
            \<and> elevation p = (if 3 < length (split_ws line) \<and> parseFloat (split_ws line ! 3) \<noteq> NaN
                              then Some (parseFloat (split_ws line ! 3)) else None)
            \<and> (length (split_ws line) \<le> 4 \<longrightarrow> attributes p = None)
            \<and> (4 < length (split_ws line) \<longrightarrow>
                 (\<exists>a. attributes p = Some a
                    \<and> map fst a = map (\<lambda>i. ''attr'' @ nat_str (i - 3)) [4..<length (split_ws line)]
                    \<and> map snd a = drop 4 (split_ws line)
                    \<and> distinct (map fst a)
                    \<and> (\<forall>i. 4 \<le> i \<and> i < length (split_ws line) \<longrightarrow>
                           map_of a (''attr'' @ nat_str (i - 3)) = Some (split_ws line ! i))))))"
proof (intro conjI impI)
  assume "length (split_ws line) < 3"
  with assms show "step st line = Inr (st\<lparr>inHeader := False\<rparr>)"
    by (auto simp: step_def data_line_def)
next
  assume len: "3 \<le> length (split_ws line)"
  define parts where "parts = split_ws line"
  define p where "p = \<lparr>id_p = Some (parts ! 0),
              x_p = parseFloat (parts ! 1),
              y_p = parseFloat (parts ! 2),
              elevation = (if length parts > 3 \<and> \<not> isNaN (parseFloat (parts ! 3))
                           then Some (parseFloat (parts ! 3)) else None),
              attributes = (if length parts > 4 then Some (line_attributes parts) else None)\<rparr>"
  have dl: "data_line line = Some p"
    using len by (simp add: data_line_def p_def parts_def Let_def)
  have st: "step st line = Inr (st\<lparr>inHeader := False, st_points := st_points st @ [p]\<rparr>)"
    using assms dl by (auto simp: step_def)
  have snd_attrs: "map snd (line_attributes parts) = drop 4 parts"
    by (rule nth_equalityI) (auto simp: line_attributes_def)
  have attrs: "4 < length parts \<longrightarrow>
                 (\<exists>a. attributes p = Some a
                    \<and> map fst a = map (\<lambda>i. ''attr'' @ nat_str (i - 3)) [4..<length parts]
                    \<and> map snd a = drop 4 parts
                    \<and> distinct (map fst a)
                    \<and> (\<forall>i. 4 \<le> i \<and> i < length parts \<longrightarrow>
                           map_of a (''attr'' @ nat_str (i - 3)) = Some (parts ! i)))"
  proof
    assume "4 < length parts"
    then have a1: "attributes p = Some (line_attributes parts)" by (simp add: p_def)
    have a2: "map fst (line_attributes parts)
              = map (\<lambda>i. ''attr'' @ nat_str (i - 3)) [4..<length parts]"
      by (simp add: line_attributes_def comp_def)
    have a3: "distinct (map fst (line_attributes parts))"
      by (rule line_attributes_keys_distinct)
    have a4: "\<forall>i. 4 \<le> i \<and> i < length parts \<longrightarrow>
                map_of (line_attributes parts) (''attr'' @ nat_str (i - 3)) = Some (parts ! i)"
      using line_attributes_lookup by blast
    show "\<exists>a. attributes p = Some a
                    \<and> map fst a = map (\<lambda>i. ''attr'' @ nat_str (i - 3)) [4..<length parts]
                    \<and> map snd a = drop 4 parts
                    \<and> distinct (map fst a)
                    \<and> (\<forall>i. 4 \<le> i \<and> i < length parts \<longrightarrow>
                           map_of a (''attr'' @ nat_str (i - 3)) = Some (parts ! i))"
      using a1 a2 snd_attrs a3 a4 by blast
  qed
  have "id_p p = Some (parts ! 0)" "x_p p = parseFloat (parts ! 1)" "y_p p = parseFloat (parts ! 2)"
    "elevation p = (if 3 < length parts \<and> parseFloat (parts ! 3) \<noteq> NaN
                              then Some (parseFloat (parts ! 3)) else None)"
    "length parts \<le> 4 \<longrightarrow> attributes p = None"
    by (simp_all add: p_def isNaN_def)
  with st attrs show "\<exists>p. step st line = Inr (st\<lparr>inHeader := False, st_points := st_points st @ [p]\<rparr>)
            \<and> id_p p = Some (split_ws line ! 0)
            \<and> x_p p = parseFloat (split_ws line ! 1)
            \<and> y_p p = parseFloat (split_ws line ! 2)
            \<and> elevation p = (if 3 < length (split_ws line) \<and> parseFloat (split_ws line ! 3) \<noteq> NaN
                              then Some (parseFloat (split_ws line ! 3)) else None)
            \<and> (length (split_ws line) \<le> 4 \<longrightarrow> attributes p = None)
            \<and> (4 < length (split_ws line) \<longrightarrow>
                 (\<exists>a. attributes p = Some a
                    \<and> map fst a = map (\<lambda>i. ''attr'' @ nat_str (i - 3)) [4..<length (split_ws line)]
                    \<and> map snd a = drop 4 (split_ws line)
                    \<and> distinct (map fst a)
                    \<and> (\<forall>i. 4 \<le> i \<and> i < length (split_ws line) \<longrightarrow>
                           map_of a (''attr'' @ nat_str (i - 3)) = Some (split_ws line ! i))))"
    unfolding parts_def by blast
qed

text \<open>
  Claim C5, as stated, says that piece 3 becomes the elevation exactly when it reads as a
  finite number. The piece \<^verbatim>\<open>Infinity\<close> reads as an infinity and becomes the elevation.
\<close>

theorem data_line_infinite_elevation:
  "data_line ''P1 1 2 Infinity''
   = Some \<lparr>id_p = Some ''P1'', x_p = Fin 1, y_p = Fin 2, elevation = Some PosInf, attributes = None\<rparr>
   \<and> \<not> is_finite (parseFloat ''Infinity'')"
  by code_simp


theorem data_line_tokens_witness:
  "(\<exists>p. step (init_state\<lparr>inHeader := False\<rparr>) ''P7 1.5 -2 30 a:b z''
          = Inr (init_state\<lparr>inHeader := False, st_points := [p]\<rparr>)
        \<and> id_p p = Some ''P7'' \<and> x_p p = Fin (3 / 2) \<and> y_p p = Fin (- 2)
        \<and> elevation p = Some (Fin 30)
        \<and> (\<exists>a. attributes p = Some a \<and> map fst a = [''attr1'', ''attr2'']
               \<and> map snd a = [''a:b'', ''z'']))
   \<and> step init_state ''P8 4'' = Inr (init_state\<lparr>inHeader := False\<rparr>)"
proof -
  have sp: "split_ws ''P7 1.5 -2 30 a:b z'' = [''P7'', ''1.5'', ''-2'', ''30'', ''a:b'', ''z'']"
    "split_ws ''P8 4'' = [''P8'', ''4'']"
    by code_simp+
  have pf: "parseFloat ''1.5'' = Fin (3 / 2)" "parseFloat ''-2'' = Fin (- 2)"
    "parseFloat ''30'' = Fin 30"
    by code_simp+
  have ns: "nat_str (Suc 0) = ''1''" "nat_str (Suc (Suc 0)) = ''2''"
    by (simp_all add: nat_str.simps digit_char_def)
  have up: "[4..<6] = [4, 5]"
    by code_simp
  have long: "(3::nat) \<le> length (split_ws ''P7 1.5 -2 30 a:b z'')"
    and short: "length (split_ws ''P8 4'') < 3"
    by (simp_all add: sp)
  have "\<not> (inHeader (init_state\<lparr>inHeader := False\<rparr>) \<and> includes_char ''P7 1.5 -2 30 a:b z'' CHR '':'')"
    by simp
  from data_line_tokens [of "''P7 1.5 -2 30 a:b z''" "init_state\<lparr>inHeader := False\<rparr>", OF _ _ this]
  have one: "\<exists>p. step (init_state\<lparr>inHeader := False\<rparr>) ''P7 1.5 -2 30 a:b z''
          = Inr (init_state\<lparr>inHeader := False, st_points := [p]\<rparr>)
        \<and> id_p p = Some ''P7'' \<and> x_p p = Fin (3 / 2) \<and> y_p p = Fin (- 2)
        \<and> elevation p = Some (Fin 30)
        \<and> (\<exists>a. attributes p = Some a \<and> map fst a = [''attr1'', ''attr2'']
               \<and> map snd a = [''a:b'', ''z''])"
    using long
    apply (simp add: sp pf ns up startsWith_def init_state_def)
    apply (elim exE conjE)
    apply (intro exI conjI)
         apply assumption+
    done
  have "\<not> (inHeader init_state \<and> includes_char ''P8 4'' CHR '':'')"
    by (simp add: includes_char_def)
  from data_line_tokens [of "''P8 4''" init_state, OF _ _ this]
  have two: "step init_state ''P8 4'' = Inr (init_state\<lparr>inHeader := False\<rparr>)"
    using short by (simp add: startsWith_def)
  from one two show ?thesis by blast
qed

subsection \<open>The errors of the reader of CSV text\<close>

lemma trim_Nil_iff: "trim s = [] \<longleftrightarrow> (\<forall>c \<in> set s. is_ws c)"
proof
  assume "trim s = []"
  then have all: "\<forall>c \<in> set (dropWhile is_ws s). is_ws c"
    by (simp add: trim_def dropWhile_eq_Nil_conv)
  have "dropWhile is_ws s = []"
  proof (rule ccontr)
    assume ne: "dropWhile is_ws s \<noteq> []"
    then have "\<not> is_ws (hd (dropWhile is_ws s))" by (rule hd_dropWhile)
    moreover have "hd (dropWhile is_ws s) \<in> set (dropWhile is_ws s)" using ne by simp
    ultimately show False using all by blast
  qed
  then show "\<forall>c \<in> set s. is_ws c" by (simp add: dropWhile_eq_Nil_conv)
next
  assume "\<forall>c \<in> set s. is_ws c"
  then have "dropWhile is_ws s = []" by (simp add: dropWhile_eq_Nil_conv)
  then show "trim s = []" by (auto simp: trim_def dest: set_dropWhileD)
qed

lemma content_lines_Nil_iff:
  "content_lines c = [] \<longleftrightarrow> (\<forall>l \<in> set (split_on CHR 0x0A c). \<forall>ch \<in> set l. is_ws ch)"
  by (auto simp: content_lines_def filter_empty_conv trim_Nil_iff)

lemma findIndex_from_None: "findIndex_from i P xs = None \<longleftrightarrow> (\<forall>x \<in> set xs. \<not> P x)"
  by (induction xs arbitrary: i) auto

lemma findIndex_None: "findIndex P xs = None \<longleftrightarrow> (\<forall>x \<in> set xs. \<not> P x)"
  by (simp add: findIndex_def findIndex_from_None)

lemma lower_char_ascii:
  assumes "of_char t = (n::nat)" and "97 \<le> n" and "n \<le> 122" and "of_char u = n - 32"
  shows "lower_char c = t \<longleftrightarrow> c = t \<or> c = u"
proof -
  have t: "t = char_of n" using assms(1) by (metis char_of_char)
  have u: "u = char_of (n - 32)" using assms(4) by (metis char_of_char)
  show ?thesis
  proof (cases "(65 \<le> (of_char c :: nat) \<and> (of_char c :: nat) \<le> 90)
                \<or> (192 \<le> (of_char c :: nat) \<and> (of_char c :: nat) \<le> 222 \<and> (of_char c :: nat) \<noteq> 215)")
    case True
    then have lc: "lower_char c = char_of (of_char c + 32 :: nat)"
      by (simp add: lower_char_def Let_def)
    have "c \<noteq> t" using True assms by auto
    moreover have "char_of (of_char c + 32 :: nat) = t \<longleftrightarrow> c = u"
    proof
      assume "char_of (of_char c + 32 :: nat) = t"
      then have "(of_char (char_of (of_char c + 32 :: nat)) :: nat) = n" using assms(1) by simp
      then have "(of_char c + 32 :: nat) mod 256 = n" by simp
      moreover have "(of_char c + 32 :: nat) < 256" using True by auto
      ultimately have "(of_char c :: nat) = n - 32" by simp
      then show "c = u" using u by (metis char_of_char)
    next
      assume "c = u"
      then have "(of_char c :: nat) = n - 32" using assms by simp
      then show "char_of (of_char c + 32 :: nat) = t" using assms t by simp
    qed
    ultimately show ?thesis using lc by simp
  next
    case False
    then have lc: "lower_char c = c" by (auto simp: lower_char_def Let_def)
    have "c \<noteq> u"
    proof
      assume "c = u"
      then have "(of_char c :: nat) = n - 32" using assms by simp
      with False assms show False by auto
    qed
    with lc show ?thesis by auto
  qed
qed

lemma lower_char_i: "lower_char c = CHR ''i'' \<longleftrightarrow> c = CHR ''i'' \<or> c = CHR ''I''"
  by (rule lower_char_ascii [of _ 105]) simp_all

lemma lower_char_d: "lower_char c = CHR ''d'' \<longleftrightarrow> c = CHR ''d'' \<or> c = CHR ''D''"
  by (rule lower_char_ascii [of _ 100]) simp_all

lemma lower_char_x: "lower_char c = CHR ''x'' \<longleftrightarrow> c = CHR ''x'' \<or> c = CHR ''X''"
  by (rule lower_char_ascii [of _ 120]) simp_all

lemma lower_char_y: "lower_char c = CHR ''y'' \<longleftrightarrow> c = CHR ''y'' \<or> c = CHR ''Y''"
  by (rule lower_char_ascii [of _ 121]) simp_all

lemma matches_id: "matches_ci [''id''] col \<longleftrightarrow> col \<in> {''id'', ''Id'', ''iD'', ''ID''}"
  by (cases col rule: list.exhaust; simp add: matches_ci_def toLowerCase_def)
     (auto simp: lower_char_i lower_char_d Cons_eq_map_conv)

lemma matches_x: "matches_ci [''x''] col \<longleftrightarrow> col \<in> {''x'', ''X''}"
  by (auto simp: matches_ci_def toLowerCase_def lower_char_x Cons_eq_map_conv)

lemma matches_y: "matches_ci [''y''] col \<longleftrightarrow> col \<in> {''y'', ''Y''}"
  by (auto simp: matches_ci_def toLowerCase_def lower_char_y Cons_eq_map_conv)


text \<open>
  Claim C4. \<^verbatim>\<open>parseCSVToSP1\<close> raises the error of the empty file exactly when every
  line of the content is blank. Otherwise it raises the error of the missing columns
  exactly when the column names lack one of \<^verbatim>\<open>id\<close>, \<^verbatim>\<open>x\<close> and \<^verbatim>\<open>y\<close>, each in
  either case of its letters. On every other content it returns a value, whose header is
  the header it was given.
\<close>

theorem parseCSVToSP1_errors:
  "(parseCSVToSP1 c h = Inl (Error ''Empty CSV file'')
      \<longleftrightarrow> (\<forall>l \<in> set (split_on CHR 0x0A c). \<forall>ch \<in> set l. is_ws ch))
   \<and> (content_lines c \<noteq> [] \<longrightarrow>
        (parseCSVToSP1 c h = Inl (Error ''CSV must contain ID, X, and Y columns'')
           \<longleftrightarrow> \<not> (has_column [''id'', ''Id'', ''iD'', ''ID''] (header_columns c)
                    \<and> has_column [''x'', ''X''] (header_columns c)
                    \<and> has_column [''y'', ''Y''] (header_columns c))))
   \<and> (content_lines c \<noteq> []
        \<and> has_column [''id'', ''Id'', ''iD'', ''ID''] (header_columns c)
        \<and> has_column [''x'', ''X''] (header_columns c)
        \<and> has_column [''y'', ''Y''] (header_columns c)
        \<longrightarrow> (\<exists>pts. parseCSVToSP1 c h = Inr \<lparr>header = h, points = pts\<rparr>))"
proof (cases "content_lines c")
  case Nil
  then have "parseCSVToSP1 c h = Inl (Error ''Empty CSV file'')"
    by (simp add: parseCSVToSP1_def)
  with Nil show ?thesis
    using content_lines_Nil_iff [of c] by simp
next
  case (Cons headerLine rest)
  define columns where "columns = map trim (split_on CHR '','' headerLine)"
  define has_id where "has_id = has_column [''id'', ''Id'', ''iD'', ''ID''] columns"
  define has_x where "has_x = has_column [''x'', ''X''] columns"
  define has_y where "has_y = has_column [''y'', ''Y''] columns"
  define res where "res = parseCSVToSP1 c h"
  have hc: "header_columns c = columns"
    by (simp add: header_columns_def Cons columns_def)
  have not_blank: "\<not> (\<forall>l \<in> set (split_on CHR 0x0A c). \<forall>ch \<in> set l. is_ws ch)"
    using content_lines_Nil_iff [of c] Cons by simp
  have idx: "findIndex (matches_ci [''id'']) columns = None \<longleftrightarrow> \<not> has_id"
    "findIndex (matches_ci [''x'']) columns = None \<longleftrightarrow> \<not> has_x"
    "findIndex (matches_ci [''y'']) columns = None \<longleftrightarrow> \<not> has_y"
    unfolding has_id_def has_x_def has_y_def has_column_def findIndex_None matches_id matches_x matches_y
    by simp_all
  have not_empty: "res \<noteq> Inl (Error ''Empty CSV file'')"
    by (simp add: res_def parseCSVToSP1_def Cons Let_def)
  have missing: "\<not> (has_id \<and> has_x \<and> has_y)
                 \<Longrightarrow> res = Inl (Error ''CSV must contain ID, X, and Y columns'')"
    using idx by (auto simp: res_def parseCSVToSP1_def Cons columns_def Let_def)
  have present: "has_id \<and> has_x \<and> has_y \<Longrightarrow> \<exists>pts. res = Inr \<lparr>header = h, points = pts\<rparr>"
    using idx by (auto simp: res_def parseCSVToSP1_def Cons columns_def Let_def)
  have "(res = Inl (Error ''Empty CSV file'')
      \<longleftrightarrow> (\<forall>l \<in> set (split_on CHR 0x0A c). \<forall>ch \<in> set l. is_ws ch))
   \<and> (content_lines c \<noteq> [] \<longrightarrow>
        (res = Inl (Error ''CSV must contain ID, X, and Y columns'')
           \<longleftrightarrow> \<not> (has_id \<and> has_x \<and> has_y)))
   \<and> (content_lines c \<noteq> [] \<and> has_id \<and> has_x \<and> has_y
        \<longrightarrow> (\<exists>pts. res = Inr \<lparr>header = h, points = pts\<rparr>))"
    using not_empty not_blank missing present by (cases "has_id \<and> has_x \<and> has_y") auto
  then show ?thesis
    unfolding res_def has_id_def has_x_def has_y_def hc .
qed

lemma csv_example_lines:
  "content_lines (''Id,x,Y,Zone'' @ [CHR 0x0A] @ ''P1,10,20,North'') = [''Id,x,Y,Zone'', ''P1,10,20,North'']"
  "content_lines (''Name,Lat,Lon'' @ [CHR 0x0A] @ ''A,1,2'') = [''Name,Lat,Lon'', ''A,1,2'']"
  by code_simp+

lemma csv_example_columns:
  "header_columns (''Id,x,Y,Zone'' @ [CHR 0x0A] @ ''P1,10,20,North'') = [''Id'', ''x'', ''Y'', ''Zone'']"
  "header_columns (''Name,Lat,Lon'' @ [CHR 0x0A] @ ''A,1,2'') = [''Name'', ''Lat'', ''Lon'']"
  by code_simp+

theorem parseCSVToSP1_errors_witness:
  "content_lines (''Id,x,Y,Zone'' @ [CHR 0x0A] @ ''P1,10,20,North'') \<noteq> []
   \<and> header_columns (''Id,x,Y,Zone'' @ [CHR 0x0A] @ ''P1,10,20,North'') = [''Id'', ''x'', ''Y'', ''Zone'']
   \<and> (\<exists>pts. parseCSVToSP1 (''Id,x,Y,Zone'' @ [CHR 0x0A] @ ''P1,10,20,North'') empty_header
              = Inr \<lparr>header = empty_header, points = pts\<rparr>)
   \<and> content_lines (''Name,Lat,Lon'' @ [CHR 0x0A] @ ''A,1,2'') \<noteq> []
   \<and> parseCSVToSP1 (''Name,Lat,Lon'' @ [CHR 0x0A] @ ''A,1,2'') empty_header
       = Inl (Error ''CSV must contain ID, X, and Y columns'')
   \<and> parseCSVToSP1 (''  '' @ [CHR 0x0A] @ [CHR 0x09]) empty_header = Inl (Error ''Empty CSV file'')"
proof -
  have blank: "\<forall>l \<in> set (split_on CHR 0x0A (''  '' @ [CHR 0x0A] @ [CHR 0x09])). \<forall>ch \<in> set l. is_ws ch"
    by (simp add: split_on_def is_ws_def)
  show ?thesis
    using parseCSVToSP1_errors [of "''Id,x,Y,Zone'' @ [CHR 0x0A] @ ''P1,10,20,North''" empty_header]
      parseCSVToSP1_errors [of "''Name,Lat,Lon'' @ [CHR 0x0A] @ ''A,1,2''" empty_header]
      parseCSVToSP1_errors [of "''  '' @ [CHR 0x0A] @ [CHR 0x09]" empty_header] blank
    unfolding csv_example_lines csv_example_columns
    by (simp add: has_column_def)
qed

subsection \<open>A cell of the elevation column that is no number\<close>

lemma obj_insert_keys: "fst ` set (obj_insert ob k v) = insert k (fst ` set ob)"
  by (induction ob k v rule: obj_insert.induct) auto

lemma obj_set_keys: "fst ` set (obj_set ob k v) = insert k (fst ` set ob)"
proof (cases "k \<in> fst ` set ob")
  case True
  then have "map fst (obj_set ob k v) = map fst ob"
    by (auto simp: obj_set_def)
  then have "set (map fst (obj_set ob k v)) = set (map fst ob)"
    by simp
  with True show ?thesis by auto
next
  case False
  then show ?thesis by (simp add: obj_set_def obj_insert_keys)
qed

lemma foldl_obj_set_keys:
  "fst ` set (foldl (\<lambda>acc j. if P j then obj_set acc (kf j) (vf j) else acc) ob js)
   = fst ` set ob \<union> kf ` {j \<in> set js. P j}"
proof (induction js arbitrary: ob)
  case Nil
  show ?case by simp
next
  case (Cons j js)
  show ?case
  proof (cases "P j")
    case True
    then show ?thesis
      using Cons.IH [of "obj_set ob (kf j) (vf j)"] by (auto simp: obj_set_keys)
  next
    case False
    then show ?thesis
      using Cons.IH [of ob] by auto
  qed
qed


lemma row_attributes_keys:
  "fst ` set (row_attributes columns idIndex xIndex yIndex elevIndex vals)
   \<subseteq> {columns ! j | j. j < length columns \<and> Some j \<noteq> elevIndex}"
  unfolding row_attributes_def foldl_obj_set_keys by auto

lemma row_attributes_elev_cell:
  "row_attributes columns idIndex xIndex yIndex (Some e) (vals[e := v])
   = row_attributes columns idIndex xIndex yIndex (Some e) vals"
  unfolding row_attributes_def
  by (rule foldl_cong) (auto simp: nth_opt_def)

text \<open>
  Claim C10. When the elevation column is column \<open>e\<close> and the cell of a row in that
  column is not empty and does not read as a number, the point of the row has no
  elevation, its attributes are those of the same row with that cell emptied, and every
  key of its attributes is the name of a column at an index other than \<open>e\<close> (so the
  cell is stored nowhere in the point).
\<close>

theorem elevation_cell_dropped:
  assumes "e < length vals" and "vals ! e \<noteq> []" and "parseFloat (vals ! e) = NaN"
  shows "elevation (row_point columns idIndex xIndex yIndex (Some e) vals) = None
    \<and> attributes (row_point columns idIndex xIndex yIndex (Some e) vals)
        = attributes (row_point columns idIndex xIndex yIndex (Some e) (vals[e := []]))
    \<and> (\<forall>a. attributes (row_point columns idIndex xIndex yIndex (Some e) vals) = Some a
            \<longrightarrow> fst ` set a \<subseteq> {columns ! j | j. j < length columns \<and> j \<noteq> e})"
proof (intro conjI allI impI)
  show "elevation (row_point columns idIndex xIndex yIndex (Some e) vals) = None"
    using assms by (simp add: row_point_def nth_at_def nth_opt_def parseFloat_opt_def isNaN_def)
  show "attributes (row_point columns idIndex xIndex yIndex (Some e) vals)
        = attributes (row_point columns idIndex xIndex yIndex (Some e) (vals[e := []]))"
    by (simp add: row_point_def row_attributes_elev_cell)
next
  fix a
  assume "attributes (row_point columns idIndex xIndex yIndex (Some e) vals) = Some a"
  then have "a = row_attributes columns idIndex xIndex yIndex (Some e) vals"
    by (auto simp: row_point_def Let_def split: if_splits)
  then show "fst ` set a \<subseteq> {columns ! j | j. j < length columns \<and> j \<noteq> e}"
    using row_attributes_keys [of columns idIndex xIndex yIndex "Some e" vals] by auto
qed

lemma csv_elevation_example:
  "parseCSVToSP1 (''ID,X,Y,Z,Zone'' @ [CHR 0x0A] @ ''P1,1,2,high,N'') empty_header
   = Inr \<lparr>header = empty_header,
           points = [row_point [''ID'', ''X'', ''Y'', ''Z'', ''Zone''] (Some 0) (Some 1) (Some 2) (Some 3)
                       [''P1'', ''1'', ''2'', ''high'', ''N'']]\<rparr>"
  "attributes (row_point [''ID'', ''X'', ''Y'', ''Z'', ''Zone''] (Some 0) (Some 1) (Some 2) (Some 3)
     [''P1'', ''1'', ''2'', ''high'', ''N'']) = Some [(''Zone'', ''N'')]"
  "parseFloat ''high'' = NaN"
  by code_simp+

theorem elevation_cell_dropped_witness:
  "(3::nat) < length [''P1'', ''1'', ''2'', ''high'', ''N'']
   \<and> [''P1'', ''1'', ''2'', ''high'', ''N''] ! 3 = ''high''
   \<and> parseFloat ''high'' = NaN
   \<and> (\<exists>p. parseCSVToSP1 (''ID,X,Y,Z,Zone'' @ [CHR 0x0A] @ ''P1,1,2,high,N'') empty_header
            = Inr \<lparr>header = empty_header, points = [p]\<rparr>
          \<and> elevation p = None
          \<and> attributes p = Some [(''Zone'', ''N'')])"
proof -
  define rp where "rp = row_point [''ID'', ''X'', ''Y'', ''Z'', ''Zone''] (Some 0) (Some 1) (Some 2) (Some 3)
                       [''P1'', ''1'', ''2'', ''high'', ''N'']"
  have h: "(3::nat) < length [''P1'', ''1'', ''2'', ''high'', ''N'']"
    "[''P1'', ''1'', ''2'', ''high'', ''N''] ! 3 \<noteq> []"
    "parseFloat ([''P1'', ''1'', ''2'', ''high'', ''N''] ! 3) = NaN"
    by (simp_all add: csv_elevation_example)
  have el: "elevation rp = None"
    unfolding rp_def using elevation_cell_dropped [OF h] by blast
  have at: "attributes rp = Some [(''Zone'', ''N'')]"
    unfolding rp_def by (rule csv_elevation_example)
  have parse: "parseCSVToSP1 (''ID,X,Y,Z,Zone'' @ [CHR 0x0A] @ ''P1,1,2,high,N'') empty_header
            = Inr \<lparr>header = empty_header, points = [rp]\<rparr>"
    unfolding rp_def by (rule csv_elevation_example)
  have "\<exists>p. parseCSVToSP1 (''ID,X,Y,Z,Zone'' @ [CHR 0x0A] @ ''P1,1,2,high,N'') empty_header
            = Inr \<lparr>header = empty_header, points = [p]\<rparr>
          \<and> elevation p = None
          \<and> attributes p = Some [(''Zone'', ''N'')]"
    using parse el at by (intro exI [of _ rp] conjI)
  moreover have "[''P1'', ''1'', ''2'', ''high'', ''N''] ! 3 = ''high''"
    by simp
  moreover have "parseFloat ''high'' = NaN"
    by (rule csv_elevation_example)
  ultimately show ?thesis
    using h(1) by (intro conjI)
qed

subsection \<open>The features of the GeoJSON export\<close>

text \<open>
  Claim C7, as amended. The export is a collection with one feature for each point, in
  the order of the points. The coordinates of a feature are \<open>x\<close>, \<open>y\<close> and a third
  value, which is the elevation of the point when it has one that is a number, and 0 when
  the elevation is absent or not-a-number. The reference system is named by the
  projection of the header when that is present and not the empty string, and by
  \<^verbatim>\<open>EPSG:4326\<close> otherwise.
\<close>

theorem convertToGeoJSON_features:
  "fc_type (convertToGeoJSON d) = ''FeatureCollection''
   \<and> length (features (convertToGeoJSON d)) = length (points d)
   \<and> (\<forall>i < length (points d).
        f_type (features (convertToGeoJSON d) ! i) = ''Feature''
        \<and> g_type (geometry (features (convertToGeoJSON d) ! i)) = ''Point''
        \<and> coordinates (geometry (features (convertToGeoJSON d) ! i))
            = [x_p (points d ! i), y_p (points d ! i),
               (case elevation (points d ! i) of
                  None \<Rightarrow> Fin 0
                | Some e \<Rightarrow> if e = NaN then Fin 0 else e)])
   \<and> crs_type (crs (convertToGeoJSON d)) = ''name''
   \<and> crs_name (crs (convertToGeoJSON d))
       = (case projection (header d) of
            None \<Rightarrow> ''EPSG:4326''
          | Some s \<Rightarrow> if s = [] then ''EPSG:4326'' else s)"
  by (auto simp: convertToGeoJSON_def feature_def elevation_or_0_def truthy_num_def truthy_str_def
           split: option.splits)

theorem convertToGeoJSON_features_witness:
  "features (convertToGeoJSON
      \<lparr>header = \<lparr>version = None, survey = None, datum = None,
                  projection = Some ''EPSG:32633'', comments = None\<rparr>,
       points = [\<lparr>id_p = Some ''P1'', x_p = Fin 1, y_p = Fin 2, elevation = Some (Fin 5),
                  attributes = None\<rparr>,
                 \<lparr>id_p = Some ''P2'', x_p = Fin 3, y_p = Fin 4, elevation = None,
                  attributes = None\<rparr>]\<rparr>)
   = [\<lparr>f_type = ''Feature'',
       geometry = \<lparr>g_type = ''Point'', coordinates = [Fin 1, Fin 2, Fin 5]\<rparr>,
       properties = [(''id'', Str ''P1''), (''elevation'', Num (Fin 5))]\<rparr>,
      \<lparr>f_type = ''Feature'',
       geometry = \<lparr>g_type = ''Point'', coordinates = [Fin 3, Fin 4, Fin 0]\<rparr>,
       properties = [(''id'', Str ''P2''), (''elevation'', Undefined)]\<rparr>]
   \<and> crs_name (crs (convertToGeoJSON
      \<lparr>header = \<lparr>version = None, survey = None, datum = None,
                  projection = Some ''EPSG:32633'', comments = None\<rparr>,
       points = [\<lparr>id_p = Some ''P1'', x_p = Fin 1, y_p = Fin 2, elevation = Some (Fin 5),
                  attributes = None\<rparr>,
                 \<lparr>id_p = Some ''P2'', x_p = Fin 3, y_p = Fin 4, elevation = None,
                  attributes = None\<rparr>]\<rparr>)) = ''EPSG:32633''"
  using convertToGeoJSON_features
    [of "\<lparr>header = \<lparr>version = None, survey = None, datum = None,
                  projection = Some ''EPSG:32633'', comments = None\<rparr>,
       points = [\<lparr>id_p = Some ''P1'', x_p = Fin 1, y_p = Fin 2, elevation = Some (Fin 5),
                  attributes = None\<rparr>,
                 \<lparr>id_p = Some ''P2'', x_p = Fin 3, y_p = Fin 4, elevation = None,
                  attributes = None\<rparr>]\<rparr>"]
  by (simp add: convertToGeoJSON_def feature_def elevation_or_0_def truthy_num_def str_val_def
        num_val_def spread_def)

text \<open>
  Claim C7, as stated, says that the reference system is named by the projection whenever
  it is present, and that the third coordinate is the elevation whenever it is present.
  The header that \<^verbatim>\<open>parseSP1File\<close> reads from the line \<^verbatim>\<open>Projection:\<close> has the empty
  string as its projection, and the export names \<^verbatim>\<open>EPSG:4326\<close>; a point whose elevation
  is not-a-number gets the third coordinate 0.
\<close>

theorem convertToGeoJSON_falsy_values:
  "parseSP1File ''Projection:''
     = Inr \<lparr>header = \<lparr>version = None, survey = None, datum = None,
                        projection = Some [], comments = None\<rparr>,
             points = []\<rparr>
   \<and> crs_name (crs (convertToGeoJSON
        \<lparr>header = \<lparr>version = None, survey = None, datum = None,
                    projection = Some [], comments = None\<rparr>,
         points = []\<rparr>)) = ''EPSG:4326''
   \<and> coordinates (geometry (feature
        \<lparr>id_p = Some ''P1'', x_p = Fin 1, y_p = Fin 2, elevation = Some NaN,
         attributes = None\<rparr>)) = [Fin 1, Fin 2, Fin 0]"
  by code_simp

subsection \<open>The header row of the CSV export\<close>

lemma finite_all_keys: "finite (all_keys d)"
  by (auto simp: all_keys_def split: option.splits)

lemma set_point_keys:
  "set (point_keys p) = (case attributes p of None \<Rightarrow> {} | Some a \<Rightarrow> fst ` set a)"
  by (simp add: point_keys_def split: option.splits)

lemma attributeKeys_sorted_list: "attributeKeys d = sorted_list_of_set (all_keys d)"
proof -
  have "set (concat (map point_keys (points d))) = all_keys d"
    by (simp add: all_keys_def set_point_keys)
  then show ?thesis
    by (simp add: attributeKeys_def sorted_list_of_set_sort_remdups [symmetric])
qed

text \<open>
  Claim C8. The keys of the header row are the attribute keys that occur in some point,
  each once, in ascending lexicographic order of their code units. The export is the
  header row, \<^verbatim>\<open>ID,X,Y,Elevation\<close> followed by these keys, and then one row for each
  point, in the order of the points, that ends with one field for each of these keys.
\<close>

theorem convertToCSV_header_row:
  "set (attributeKeys d) = all_keys d
   \<and> sorted (attributeKeys d)
   \<and> distinct (attributeKeys d)
   \<and> convertToCSV d
       = (''ID,X,Y,Elevation'' @ concat (map (\<lambda>key. '','' @ key) (attributeKeys d))) @ [CHR 0x0A]
         @ concat (map (\<lambda>p. (str_of (id_p p) @ '','' @ numToString (x_p p) @ '','' @ numToString (y_p p)
                              @ '','' @ elevation_field (elevation p)
                              @ concat (map (\<lambda>key. '','' @ attribute_field p key) (attributeKeys d)))
                             @ [CHR 0x0A])
                     (points d))"
proof (intro conjI)
  show "set (attributeKeys d) = all_keys d"
    by (simp add: attributeKeys_sorted_list finite_all_keys)
  show "sorted (attributeKeys d)"
    by (simp add: attributeKeys_sorted_list)
  show "distinct (attributeKeys d)"
    by (simp add: attributeKeys_sorted_list)
  show "convertToCSV d
       = (''ID,X,Y,Elevation'' @ concat (map (\<lambda>key. '','' @ key) (attributeKeys d))) @ [CHR 0x0A]
         @ concat (map (\<lambda>p. (str_of (id_p p) @ '','' @ numToString (x_p p) @ '','' @ numToString (y_p p)
                              @ '','' @ elevation_field (elevation p)
                              @ concat (map (\<lambda>key. '','' @ attribute_field p key) (attributeKeys d)))
                             @ [CHR 0x0A])
                     (points d))"
    by (simp add: convertToCSV_def csv_header_row_def csv_row_def)
qed


theorem convertToCSV_header_row_witness:
  "sorted (attributeKeys
       \<lparr>header = empty_header,
        points = [\<lparr>id_p = Some ''P1'', x_p = Fin 1, y_p = Fin 2, elevation = Some (Fin 5),
                   attributes = Some [(''zone'', ''N'')]\<rparr>,
                  \<lparr>id_p = Some ''P2'', x_p = Fin 3, y_p = Fin 4, elevation = None,
                   attributes = Some [(''b'', ''2''), (''a'', ''3'')]\<rparr>]\<rparr>)
   \<and> attributeKeys
       \<lparr>header = empty_header,
        points = [\<lparr>id_p = Some ''P1'', x_p = Fin 1, y_p = Fin 2, elevation = Some (Fin 5),
                   attributes = Some [(''zone'', ''N'')]\<rparr>,
                  \<lparr>id_p = Some ''P2'', x_p = Fin 3, y_p = Fin 4, elevation = None,
                   attributes = Some [(''b'', ''2''), (''a'', ''3'')]\<rparr>]\<rparr>
       = [''a'', ''b'', ''zone'']
   \<and> convertToCSV
       \<lparr>header = empty_header,
        points = [\<lparr>id_p = Some ''P1'', x_p = Fin 1, y_p = Fin 2, elevation = Some (Fin 5),
                   attributes = Some [(''zone'', ''N'')]\<rparr>,
                  \<lparr>id_p = Some ''P2'', x_p = Fin 3, y_p = Fin 4, elevation = None,
                   attributes = Some [(''b'', ''2''), (''a'', ''3'')]\<rparr>]\<rparr>
       = ''ID,X,Y,Elevation,a,b,zone'' @ [CHR 0x0A]
         @ ''P1,1,2,5,,,N'' @ [CHR 0x0A]
         @ ''P2,3,4,,3,2,'' @ [CHR 0x0A]"
proof -
  have keys: "attributeKeys
       \<lparr>header = empty_header,
        points = [\<lparr>id_p = Some ''P1'', x_p = Fin 1, y_p = Fin 2, elevation = Some (Fin 5),
                   attributes = Some [(''zone'', ''N'')]\<rparr>,
                  \<lparr>id_p = Some ''P2'', x_p = Fin 3, y_p = Fin 4, elevation = None,
                   attributes = Some [(''b'', ''2''), (''a'', ''3'')]\<rparr>]\<rparr>
       = [''a'', ''b'', ''zone'']"
    by code_simp
  have csv: "convertToCSV
       \<lparr>header = empty_header,
        points = [\<lparr>id_p = Some ''P1'', x_p = Fin 1, y_p = Fin 2, elevation = Some (Fin 5),
                   attributes = Some [(''zone'', ''N'')]\<rparr>,
                  \<lparr>id_p = Some ''P2'', x_p = Fin 3, y_p = Fin 4, elevation = None,
                   attributes = Some [(''b'', ''2''), (''a'', ''3'')]\<rparr>]\<rparr>
       = ''ID,X,Y,Elevation,a,b,zone'' @ [CHR 0x0A]
         @ ''P1,1,2,5,,,N'' @ [CHR 0x0A]
         @ ''P2,3,4,,3,2,'' @ [CHR 0x0A]"
    by code_simp
  have "sorted (attributeKeys
       \<lparr>header = empty_header,
        points = [\<lparr>id_p = Some ''P1'', x_p = Fin 1, y_p = Fin 2, elevation = Some (Fin 5),
                   attributes = Some [(''zone'', ''N'')]\<rparr>,
                  \<lparr>id_p = Some ''P2'', x_p = Fin 3, y_p = Fin 4, elevation = None,
                   attributes = Some [(''b'', ''2''), (''a'', ''3'')]\<rparr>]\<rparr>)"
    using convertToCSV_header_row
      [of "\<lparr>header = empty_header,
        points = [\<lparr>id_p = Some ''P1'', x_p = Fin 1, y_p = Fin 2, elevation = Some (Fin 5),
                   attributes = Some [(''zone'', ''N'')]\<rparr>,
                  \<lparr>id_p = Some ''P2'', x_p = Fin 3, y_p = Fin 4, elevation = None,
                   attributes = Some [(''b'', ''2''), (''a'', ''3'')]\<rparr>]\<rparr>"]
    by blast
  then show ?thesis
    using keys csv by (intro conjI)
qed

subsection \<open>Writing a number with fixed decimals and reading it back\<close>

lemma is_digit_digit_char: "d < 10 \<Longrightarrow> is_digit (digit_char d)"
proof -
  assume "d < 10"
  then have "d \<in> {0,1,2,3,4,5,6,7,8,9}" by auto
  then show ?thesis
    by (auto simp: is_digit_def digit_char_def)
qed

lemma nat_str_digits: "list_all is_digit (nat_str n)"
proof (induction n rule: nat_str.induct)
  case (1 n)
  show ?case
  proof (cases "n < 10")
    case True
    then show ?thesis
      by (subst nat_str.simps) (simp add: is_digit_digit_char)
  next
    case False
    with "1" have "list_all is_digit (nat_str (n div 10))" by simp
    with False show ?thesis
      by (subst nat_str.simps) (simp add: is_digit_digit_char)
  qed
qed

lemma nat_str_not_Nil: "nat_str n \<noteq> []"
  by (subst nat_str.simps) simp

lemma digits_val_append:
  "digits_val (xs @ ys) = digits_val xs * 10 ^ length ys + digits_val ys"
proof (induction ys rule: rev_induct)
  case Nil
  show ?case by (simp add: digits_val_def)
next
  case (snoc y ys)
  have "digits_val (xs @ ys @ [y]) = 10 * digits_val (xs @ ys) + digit_val y"
    using digits_val_snoc [of "xs @ ys" y] by simp
  also have "\<dots> = 10 * (digits_val xs * 10 ^ length ys + digits_val ys) + digit_val y"
    by (simp add: snoc.IH)
  also have "\<dots> = digits_val xs * 10 ^ length (ys @ [y]) + digits_val (ys @ [y])"
    by (simp add: digits_val_snoc algebra_simps)
  finally show ?case .
qed

lemma digits_val_zeros: "digits_val (replicate z CHR ''0'') = 0"
proof (induction z)
  case 0
  show ?case by (simp add: digits_val_def)
next
  case (Suc z)
  have "digits_val (replicate (Suc z) CHR ''0'') = digits_val (''0'' @ replicate z CHR ''0'')"
    by simp
  also have "\<dots> = digits_val ''0'' * 10 ^ z + digits_val (replicate z CHR ''0'')"
    by (simp only: digits_val_append length_replicate)
  also have "\<dots> = 0"
    by (simp add: Suc.IH) (simp add: digits_val_def digit_val_def)
  finally show ?case .
qed

lemma parse_unsigned_decimal:
  assumes "list_all is_digit ip" and "list_all is_digit fp" and "ip \<noteq> []"
  shows "parse_unsigned (ip @ ''.'' @ fp)
         = Fin (of_nat (digits_val ip) + of_nat (digits_val fp) / 10 ^ length fp)"
proof -
  have nd: "\<not> is_digit CHR ''.''" by (simp add: is_digit_def)
  have tw: "takeWhile is_digit (ip @ ''.'' @ fp) = ip"
    using assms(1) nd by (simp add: takeWhile_append2 list_all_iff)
  have dw: "dropWhile is_digit (ip @ ''.'' @ fp) = ''.'' @ fp"
    using assms(1) nd by (simp add: dropWhile_append2 list_all_iff)
  have tw2: "takeWhile is_digit fp = fp" and dw2: "dropWhile is_digit fp = []"
    using assms(2) by (simp_all add: list_all_iff)
  obtain c cs where ip: "ip = c # cs" using assms(3) by (cases ip) auto
  then have "is_digit c" using assms(1) by simp
  then have "c \<noteq> CHR ''I''" by (auto simp: is_digit_def)
  then have ni: "take 8 (ip @ ''.'' @ fp) \<noteq> ''Infinity''" using ip by auto
  show ?thesis
    unfolding parse_unsigned_def Let_def tw dw
    using ni assms(3) by (simp add: startsWith_def tw2 dw2 exponent_factor_def)
qed

lemma parseFloat_decimal:
  assumes "list_all is_digit ip" and "list_all is_digit fp" and "ip \<noteq> []"
  shows "parseFloat (ip @ ''.'' @ fp)
         = Fin (of_nat (digits_val ip) + of_nat (digits_val fp) / 10 ^ length fp)"
    and "parseFloat (''-'' @ ip @ ''.'' @ fp)
         = Fin (- (of_nat (digits_val ip) + of_nat (digits_val fp) / 10 ^ length fp))"
proof -
  obtain c cs where ip: "ip = c # cs" using assms(3) by (cases ip) auto
  then have d: "is_digit c" using assms(1) by simp
  then have c: "\<not> is_ws c" "c \<noteq> CHR ''-''" "c \<noteq> CHR ''+''"
    by (auto simp: is_digit_def is_ws_def)
  have "parseFloat (ip @ ''.'' @ fp) = parse_unsigned (ip @ ''.'' @ fp)"
    using c by (simp add: parseFloat_def ip startsWith_def)
  then show "parseFloat (ip @ ''.'' @ fp)
         = Fin (of_nat (digits_val ip) + of_nat (digits_val fp) / 10 ^ length fp)"
    using parse_unsigned_decimal [OF assms] by simp
  have "parseFloat (''-'' @ ip @ ''.'' @ fp) = negate (parse_unsigned (ip @ ''.'' @ fp))"
    by (simp add: parseFloat_def startsWith_def is_ws_def)
  then show "parseFloat (''-'' @ ip @ ''.'' @ fp)
         = Fin (- (of_nat (digits_val ip) + of_nat (digits_val fp) / 10 ^ length fp))"
    using parse_unsigned_decimal [OF assms] by (simp add: negate_def)
qed


lemma toFixed_decimal:
  assumes "\<bar>r\<bar> < 10 ^ 21" and "0 < f"
  obtains ip fp where
    "toFixed f (Fin r) = (if r < 0 then ''-'' else []) @ ip @ ''.'' @ fp"
    and "list_all is_digit ip" and "list_all is_digit fp" and "ip \<noteq> []" and "length fp = f"
    and "digits_val ip * 10 ^ f + digits_val fp = nat \<lfloor>\<bar>r\<bar> * 10 ^ f + 1 / 2\<rfloor>"
proof -
  define n where "n = nat \<lfloor>\<bar>r\<bar> * 10 ^ f + 1 / 2\<rfloor>"
  define m where "m = nat_str n"
  define m' where "m' = (if length m \<le> f then replicate (f + 1 - length m) CHR ''0'' @ m else m)"
  define ip where "ip = take (length m' - f) m'"
  define fp where "fp = drop (length m' - f) m'"
  have tf: "toFixed f (Fin r) = (if r < 0 then ''-'' else []) @ ip @ ''.'' @ fp"
    using assms by (simp add: toFixed_def Let_def n_def m_def m'_def ip_def fp_def)
  have len: "f < length m'"
    by (auto simp: m'_def)
  have zero: "is_digit CHR ''0''" by (simp add: is_digit_def)
  have dm: "list_all is_digit m" by (simp add: m_def nat_str_digits)
  then have dm': "list_all is_digit m'"
    using zero by (auto simp: m'_def list_all_iff)
  have split: "ip @ fp = m'" by (simp add: ip_def fp_def)
  have d1: "list_all is_digit ip" and d2: "list_all is_digit fp"
    using dm' by (auto simp: ip_def fp_def list_all_iff dest: in_set_takeD in_set_dropD)
  have ne: "ip \<noteq> []" using len by (auto simp: ip_def)
  have lf: "length fp = f" using len by (simp add: fp_def)
  have "digits_val m = n"
    by (simp add: m_def digits_val_nat_str)
  then have "digits_val m' = n"
    unfolding m'_def by (simp add: digits_val_append digits_val_zeros)
  then have "digits_val ip * 10 ^ f + digits_val fp = n"
    using digits_val_append [of ip fp] by (simp add: split lf)
  then show ?thesis
    using that [OF tf d1 d2 ne lf] by (simp add: n_def)
qed

lemma parseFloat_toFixed:
  assumes "plain x" and "0 < f"
  shows "parseFloat (toFixed f x) = round_to f x"
proof -
  from assms(1) obtain r where x: "x = Fin r" and r: "\<bar>r\<bar> < 10 ^ 21"
    by (cases x) (auto simp: plain_def)
  from toFixed_decimal [OF r assms(2)] obtain ip fp where
    tf: "toFixed f (Fin r) = (if r < 0 then ''-'' else []) @ ip @ ''.'' @ fp"
    and d: "list_all is_digit ip" "list_all is_digit fp" "ip \<noteq> []" and lf: "length fp = f"
    and v: "digits_val ip * 10 ^ f + digits_val fp = nat \<lfloor>\<bar>r\<bar> * 10 ^ f + 1 / 2\<rfloor>"
    by blast
  have nonneg: "0 \<le> \<lfloor>\<bar>r\<bar> * 10 ^ f + 1 / 2\<rfloor>"
    by simp
  have "(of_nat (digits_val ip) + of_nat (digits_val fp) / 10 ^ f :: rat)
        = of_nat (digits_val ip * 10 ^ f + digits_val fp) / 10 ^ f"
    by (simp add: field_simps)
  also have "\<dots> = of_int \<lfloor>\<bar>r\<bar> * 10 ^ f + 1 / 2\<rfloor> / 10 ^ f"
    using nonneg by (simp only: v of_nat_nat)
  finally have val: "(of_nat (digits_val ip) + of_nat (digits_val fp) / 10 ^ length fp :: rat)
        = of_int \<lfloor>\<bar>r\<bar> * 10 ^ f + 1 / 2\<rfloor> / 10 ^ f"
    by (simp add: lf)
  show ?thesis
  proof (cases "r < 0")
    case True
    then have "parseFloat (toFixed f x) = parseFloat (''-'' @ ip @ ''.'' @ fp)"
      by (simp add: x tf)
    also have "\<dots> = Fin (- (of_int \<lfloor>\<bar>r\<bar> * 10 ^ f + 1 / 2\<rfloor> / 10 ^ f))"
      by (simp only: parseFloat_decimal(2) [OF d] val)
    finally show ?thesis using True by (simp add: x round_to_def)
  next
    case False
    then have "parseFloat (toFixed f x) = parseFloat (ip @ ''.'' @ fp)"
      by (simp add: x tf)
    also have "\<dots> = Fin (of_int \<lfloor>\<bar>r\<bar> * 10 ^ f + 1 / 2\<rfloor> / 10 ^ f)"
      by (simp only: parseFloat_decimal(1) [OF d] val)
    finally show ?thesis using False by (simp add: x round_to_def)
  qed
qed

lemma toFixed_chars:
  assumes "plain x" and "0 < f"
  shows "toFixed f x \<noteq> []"
    and "\<forall>c \<in> set (toFixed f x). is_digit c \<or> c = CHR ''-'' \<or> c = CHR ''.''"
proof -
  from assms(1) obtain r where x: "x = Fin r" and r: "\<bar>r\<bar> < 10 ^ 21"
    by (cases x) (auto simp: plain_def)
  from toFixed_decimal [OF r assms(2)] obtain ip fp where
    tf: "toFixed f (Fin r) = (if r < 0 then ''-'' else []) @ ip @ ''.'' @ fp"
    and d: "list_all is_digit ip" "list_all is_digit fp"
    by blast
  show "toFixed f x \<noteq> []" by (simp add: x tf)
  show "\<forall>c \<in> set (toFixed f x). is_digit c \<or> c = CHR ''-'' \<or> c = CHR ''.''"
    using d unfolding x tf list_all_iff by auto
qed

subsection \<open>Lines and tokens\<close>

lemma split_from_no_sep:
  "sep \<notin> set cur \<Longrightarrow> \<forall>p \<in> set (split_from sep cur s). sep \<notin> set p"
proof (induction s arbitrary: cur)
  case Nil
  then show ?case by simp
next
  case (Cons c s)
  show ?case
  proof (cases "c = sep")
    case True
    have "\<forall>p \<in> set (split_from sep [] s). sep \<notin> set p"
      by (rule Cons.IH) simp
    with True Cons.prems show ?thesis by simp
  next
    case False
    have "\<forall>p \<in> set (split_from sep (cur @ [c]) s). sep \<notin> set p"
      by (rule Cons.IH) (use False Cons.prems in auto)
    with False show ?thesis by simp
  qed
qed

lemma split_from_chars:
  "p \<in> set (split_from sep cur s) \<Longrightarrow> set p \<subseteq> set cur \<union> set s"
  by (induction s arbitrary: cur) (fastforce split: if_splits)+

lemma split_on_no_sep: "p \<in> set (split_on sep s) \<Longrightarrow> sep \<notin> set p"
  using split_from_no_sep [of sep "[]" s] by (simp add: split_on_def)

lemma split_on_chars: "p \<in> set (split_on sep s) \<Longrightarrow> set p \<subseteq> set s"
  using split_from_chars [of p sep "[]" s] by (simp add: split_on_def)

lemma set_trim: "set (trim s) \<subseteq> set s"
proof
  fix x
  assume "x \<in> set (trim s)"
  then have "x \<in> set (dropWhile is_ws (rev (dropWhile is_ws s)))"
    by (simp add: trim_def)
  then have "x \<in> set (rev (dropWhile is_ws s))"
    by (rule set_dropWhileD)
  then have "x \<in> set (dropWhile is_ws s)"
    by simp
  then show "x \<in> set s"
    by (rule set_dropWhileD)
qed

lemma trimmed_trim: "trim s \<noteq> [] \<Longrightarrow> trimmed (trim s)"
proof -
  assume ne: "trim s \<noteq> []"
  define u where "u = rev (dropWhile is_ws s)"
  have t: "trim s = rev (dropWhile is_ws u)" by (simp add: trim_def u_def)
  with ne have une: "dropWhile is_ws u \<noteq> []" by simp
  then have "\<not> is_ws (hd (dropWhile is_ws u))" by (rule hd_dropWhile)
  then have l: "\<not> is_ws (last (trim s))" using une by (simp add: t last_rev)
  from une obtain a b where ab: "u = a @ b" "b \<noteq> []" "dropWhile is_ws u = b"
    by (metis takeWhile_dropWhile_id)
  have "u \<noteq> []" using ab by simp
  then have sne: "dropWhile is_ws s \<noteq> []" by (simp add: u_def)
  then have "\<not> is_ws (hd (dropWhile is_ws s))" by (rule hd_dropWhile)
  then have "\<not> is_ws (last u)" using sne by (simp add: u_def last_rev)
  then have "\<not> is_ws (last b)" using ab by simp
  then have "\<not> is_ws (hd (rev b))" using ab by (simp add: hd_rev)
  then have "\<not> is_ws (hd (trim s))" using ab t by simp
  with ne l show ?thesis by (simp add: trimmed_def)
qed

lemma trim_trimmed: "trimmed l \<Longrightarrow> trim l = l"
proof -
  assume "trimmed l"
  then have ne: "l \<noteq> []" and h: "\<not> is_ws (hd l)" and e: "\<not> is_ws (last l)"
    by (simp_all add: trimmed_def)
  from ne h have "dropWhile is_ws l = l" by (cases l) auto
  moreover from ne e have "dropWhile is_ws (rev l) = rev l"
    by (cases "rev l") (auto simp: last_rev [symmetric] hd_rev)
  ultimately show ?thesis by (simp add: trim_def)
qed

lemma content_lines_line:
  assumes "l \<in> set (content_lines c)"
  shows "trimmed l" and "CHR 0x0A \<notin> set l"
proof -
  from assms obtain p where p: "p \<in> set (split_on CHR 0x0A c)" and l: "l = trim p" and ne: "l \<noteq> []"
    by (auto simp: content_lines_def)
  show "trimmed l" using ne l trimmed_trim by simp
  have "CHR 0x0A \<notin> set p" using p by (rule split_on_no_sep)
  then show "CHR 0x0A \<notin> set l" using set_trim [of p] l by auto
qed


lemma split_ws_from_no_ws:
  "list_all (\<lambda>c. \<not> is_ws c) cur \<Longrightarrow>
   \<forall>t \<in> set (split_ws_from b cur s). list_all (\<lambda>c. \<not> is_ws c) t"
proof (induction s arbitrary: b cur)
  case Nil
  then show ?case by simp
next
  case (Cons c s)
  show ?case
  proof (cases "is_ws c")
    case True
    have "\<forall>t \<in> set (split_ws_from True [] s). list_all (\<lambda>c. \<not> is_ws c) t"
      by (rule Cons.IH) simp
    moreover have "\<forall>t \<in> set (split_ws_from True cur s). list_all (\<lambda>c. \<not> is_ws c) t"
      by (rule Cons.IH) (rule Cons.prems)
    ultimately show ?thesis using True Cons.prems by simp
  next
    case False
    have "\<forall>t \<in> set (split_ws_from False (cur @ [c]) s). list_all (\<lambda>c. \<not> is_ws c) t"
      by (rule Cons.IH) (use False Cons.prems in simp)
    with False show ?thesis by simp
  qed
qed

lemma split_ws_from_chars:
  "\<forall>t \<in> set (split_ws_from b cur s). set t \<subseteq> set cur \<union> set s"
proof (induction s arbitrary: b cur)
  case Nil
  show ?case by simp
next
  case (Cons c s)
  have "\<forall>t \<in> set (split_ws_from True [] s). set t \<subseteq> set [] \<union> set s"
    and "\<forall>t \<in> set (split_ws_from True cur s). set t \<subseteq> set cur \<union> set s"
    and "\<forall>t \<in> set (split_ws_from False (cur @ [c]) s). set t \<subseteq> set (cur @ [c]) \<union> set s"
    by (rule Cons.IH)+
  then show ?case by auto
qed

lemma split_ws_from_not_Nil:
  assumes "b \<longrightarrow> cur = []"
    and "s = [] \<longrightarrow> cur \<noteq> []"
    and "s \<noteq> [] \<longrightarrow> \<not> is_ws (last s)"
    and "cur = [] \<and> \<not> b \<longrightarrow> s \<noteq> [] \<and> \<not> is_ws (hd s)"
  shows "\<forall>t \<in> set (split_ws_from b cur s). t \<noteq> []"
  using assms
proof (induction s arbitrary: b cur)
  case Nil
  then show ?case by simp
next
  case (Cons c s)
  show ?case
  proof (cases "is_ws c")
    case True
    then have sne: "s \<noteq> []" using Cons.prems(3) by auto
    then have last: "\<not> is_ws (last s)" using Cons.prems(3) by simp
    have rest: "\<forall>t \<in> set (split_ws_from True [] s). t \<noteq> []"
      by (rule Cons.IH) (use sne last in simp_all)
    show ?thesis
    proof (cases b)
      case True
      then have "cur = []" using Cons.prems(1) by simp
      with True \<open>is_ws c\<close> rest show ?thesis by simp
    next
      case False
      then have "cur \<noteq> []" using Cons.prems(4) \<open>is_ws c\<close> by auto
      with False \<open>is_ws c\<close> rest show ?thesis by simp
    qed
  next
    case False
    have "\<forall>t \<in> set (split_ws_from False (cur @ [c]) s). t \<noteq> []"
      by (rule Cons.IH) (use Cons.prems(3) in auto)
    with False show ?thesis by simp
  qed
qed

lemma split_ws_from_result_not_Nil: "split_ws_from b cur s \<noteq> []"
  by (induction s arbitrary: b cur) simp_all

lemma split_ws_from_hd:
  "hd (split_ws_from False cur s) = cur @ takeWhile (\<lambda>c. \<not> is_ws c) s"
  by (induction s arbitrary: cur) simp_all

lemma split_ws_tokens:
  assumes "trimmed l"
  shows "\<forall>t \<in> set (split_ws l). token t"
    and "\<forall>t \<in> set (split_ws l). set t \<subseteq> set l"
    and "split_ws l \<noteq> []"
    and "hd (hd (split_ws l)) = hd l"
proof -
  have l: "l \<noteq> []" "\<not> is_ws (hd l)" "\<not> is_ws (last l)"
    using assms by (simp_all add: trimmed_def)
  have "\<forall>t \<in> set (split_ws l). t \<noteq> []"
    unfolding split_ws_def by (rule split_ws_from_not_Nil) (use l in simp_all)
  moreover have "\<forall>t \<in> set (split_ws l). list_all (\<lambda>c. \<not> is_ws c) t"
    unfolding split_ws_def by (rule split_ws_from_no_ws) simp
  ultimately show "\<forall>t \<in> set (split_ws l). token t"
    by (simp add: token_def)
  show "\<forall>t \<in> set (split_ws l). set t \<subseteq> set l"
    using split_ws_from_chars [of False "[]" l] by (simp add: split_ws_def)
  show "split_ws l \<noteq> []"
    by (simp add: split_ws_def split_ws_from_result_not_Nil)
  obtain c cs where "l = c # cs" using l(1) by (cases l) auto
  with l(2) show "hd (hd (split_ws l)) = hd l"
    by (simp add: split_ws_def split_ws_from_hd)
qed

lemma split_ws_from_no_ws_prefix:
  "list_all (\<lambda>c. \<not> is_ws c) g \<Longrightarrow>
   split_ws_from b cur (g @ rest)
   = (if g = [] then split_ws_from b cur rest else split_ws_from False (cur @ g) rest)"
proof (induction g arbitrary: b cur)
  case Nil
  show ?case by simp
next
  case (Cons c g)
  then have "split_ws_from b cur ((c # g) @ rest) = split_ws_from False (cur @ [c]) (g @ rest)"
    by simp
  also have "\<dots> = (if g = [] then split_ws_from False (cur @ [c]) rest
                     else split_ws_from False ((cur @ [c]) @ g) rest)"
    by (rule Cons.IH) (use Cons.prems in simp)
  also have "\<dots> = split_ws_from False (cur @ c # g) rest"
    by simp
  finally show ?case by simp
qed

lemma split_ws_from_token:
  assumes "token f"
  shows "split_ws_from b cur (f @ rest) = split_ws_from False (cur @ f) rest"
  using assms split_ws_from_no_ws_prefix [of f b cur rest] by (simp add: token_def)

lemma split_ws_from_fields:
  assumes "\<forall>f \<in> set fs. token f"
  shows "split_ws_from False cur (concat (map (\<lambda>f. [CHR 0x09] @ f) fs)) = cur # fs"
  using assms
proof (induction fs arbitrary: cur)
  case Nil
  show ?case by simp
next
  case (Cons f fs)
  have tab: "is_ws CHR 0x09" by (simp add: is_ws_def)
  have "split_ws_from False cur (concat (map (\<lambda>f. [CHR 0x09] @ f) (f # fs)))
        = cur # split_ws_from True [] (f @ concat (map (\<lambda>f. [CHR 0x09] @ f) fs))"
    using tab by simp
  also have "\<dots> = cur # split_ws_from False f (concat (map (\<lambda>f. [CHR 0x09] @ f) fs))"
    using split_ws_from_token [of f True "[]"] Cons.prems by simp
  also have "\<dots> = cur # f # fs"
    using Cons.IH [of f] Cons.prems by simp
  finally show ?case .
qed

lemma split_ws_fields:
  assumes "token f" and "\<forall>g \<in> set fs. token g"
  shows "split_ws (f @ concat (map (\<lambda>g. [CHR 0x09] @ g) fs)) = f # fs"
  using split_ws_from_token [OF assms(1), of False "[]"] split_ws_from_fields [OF assms(2), of f]
  by (simp add: split_ws_def)

subsection \<open>The lines that become points\<close>

lemma map_filter_append_lists:
  "List.map_filter f (xs @ ys) = List.map_filter f xs @ List.map_filter f ys"
  by (simp add: List.map_filter_def)

lemma step_data_lines:
  assumes "step st l = Inr st'"
  shows "st_points st' = st_points st @ List.map_filter data_line (data_lines (inHeader st) [l])"
    and "data_lines (inHeader st) (l # ls) = data_lines (inHeader st) [l] @ data_lines (inHeader st') ls"
proof -
  consider (skip) "l = [] \<or> startsWith l CHR ''#''"
    | (hdr) "\<not> (l = [] \<or> startsWith l CHR ''#'')" "inHeader st \<and> includes_char l CHR '':''"
    | (data) "\<not> (l = [] \<or> startsWith l CHR ''#'')" "\<not> (inHeader st \<and> includes_char l CHR '':'')"
    by blast
  then have "st_points st' = st_points st @ List.map_filter data_line (data_lines (inHeader st) [l])
             \<and> data_lines (inHeader st) (l # ls)
                 = data_lines (inHeader st) [l] @ data_lines (inHeader st') ls"
  proof cases
    case skip
    then have "st_points st' = st_points st" "inHeader st' = inHeader st"
      using assms by (auto simp: step_def split: if_splits)
    with skip show ?thesis by (simp add: List.map_filter_simps)
  next
    case hdr
    then have "st_points st' = st_points st" "inHeader st' = inHeader st"
      using assms by (auto simp: step_def split: if_splits sum.splits)
    with hdr show ?thesis by (simp add: List.map_filter_simps)
  next
    case data
    then have "inHeader st' = False"
      "st_points st' = st_points st @ (case data_line l of None \<Rightarrow> [] | Some p \<Rightarrow> [p])"
      using assms by (auto simp: step_def split: if_splits option.splits)
    with data show ?thesis by (auto simp: List.map_filter_simps split: option.splits)
  qed
  then show "st_points st' = st_points st @ List.map_filter data_line (data_lines (inHeader st) [l])"
    and "data_lines (inHeader st) (l # ls) = data_lines (inHeader st) [l] @ data_lines (inHeader st') ls"
    by simp_all
qed

lemma run_points:
  "run st ls = Inr st' \<Longrightarrow>
   st_points st' = st_points st @ List.map_filter data_line (data_lines (inHeader st) ls)"
proof (induction ls arbitrary: st)
  case Nil
  then show ?case by (simp add: List.map_filter_simps)
next
  case (Cons l ls)
  from Cons.prems obtain st1 where s1: "step st l = Inr st1" and r: "run st1 ls = Inr st'"
    by (auto split: sum.splits)
  have "st_points st' = st_points st1 @ List.map_filter data_line (data_lines (inHeader st1) ls)"
    using Cons.IH [OF r] .
  then show ?case
    using step_data_lines(1) [OF s1] step_data_lines(2) [OF s1, of ls]
    by (simp add: map_filter_append_lists)
qed

lemma parseSP1File_points:
  "\<exists>d. parseSP1File t = Inr d
       \<and> points d = List.map_filter data_line (data_lines True (content_lines t))"
proof -
  obtain st' where r: "run init_state (content_lines t) = Inr st'"
    using run_Inr by blast
  then show ?thesis
    using run_points [OF r] by (simp add: parseSP1File_def init_state_def)
qed

lemma data_lines_subset: "l \<in> set (data_lines h ls) \<Longrightarrow> l \<in> set ls \<and> l \<noteq> [] \<and> \<not> startsWith l CHR ''#''"
  by (induction h ls rule: data_lines.induct) (auto split: if_splits)

lemma data_lines_hd_no_colon:
  "data_lines True ls \<noteq> [] \<Longrightarrow> \<not> includes_char (hd (data_lines True ls)) CHR '':''"
  by (induction ls) (auto split: if_splits)

lemma data_lines_append:
  "data_lines h (xs @ ys) = data_lines h xs @ data_lines (h \<and> data_lines h xs = []) ys"
  by (induction h xs rule: data_lines.induct) auto

lemma data_lines_header:
  "\<forall>l \<in> set ls. startsWith l CHR ''#'' \<or> includes_char l CHR '':'' \<Longrightarrow> data_lines True ls = []"
  by (induction ls) auto

lemma data_lines_all:
  "\<forall>l \<in> set ls. l \<noteq> [] \<and> \<not> startsWith l CHR ''#'' \<Longrightarrow> data_lines False ls = ls"
  by (induction ls) auto

subsection \<open>The lines of the written text\<close>

lemma split_from_append:
  "split_from sep cur (a @ sep # b) = split_from sep cur a @ split_from sep [] b"
  by (induction a arbitrary: cur) simp_all

lemma split_from_no_occurrence: "sep \<notin> set s \<Longrightarrow> split_from sep cur s = [cur @ s]"
  by (induction s arbitrary: cur) auto

lemma content_lines_append:
  "content_lines (a @ [CHR 0x0A] @ b) = content_lines a @ content_lines b"
  by (simp add: content_lines_def split_on_def split_from_append)

lemma content_lines_Nil: "content_lines [] = []"
  by (simp add: content_lines_def split_on_def trim_def)

lemma content_lines_concat:
  "content_lines (concat (map (\<lambda>l. l @ [CHR 0x0A]) ls) @ rest)
   = concat (map content_lines ls) @ content_lines rest"
proof (induction ls)
  case Nil
  show ?case by simp
next
  case (Cons l ls)
  have "content_lines (concat (map (\<lambda>l. l @ [CHR 0x0A]) (l # ls)) @ rest)
        = content_lines (l @ [CHR 0x0A] @ (concat (map (\<lambda>l. l @ [CHR 0x0A]) ls) @ rest))"
    by simp
  also have "\<dots> = content_lines l @ content_lines (concat (map (\<lambda>l. l @ [CHR 0x0A]) ls) @ rest)"
    by (rule content_lines_append)
  finally show ?case by (simp add: Cons.IH)
qed

lemma content_lines_single:
  assumes "CHR 0x0A \<notin> set l"
  shows "content_lines l = (if trim l = [] then [] else [trim l])"
  using assms by (simp add: content_lines_def split_on_def split_from_no_occurrence)

lemma content_lines_trimmed:
  assumes "trimmed l" and "CHR 0x0A \<notin> set l"
  shows "content_lines l = [l]"
  using assms trim_trimmed [OF assms(1)]
  by (simp add: content_lines_single trimmed_def)

lemma content_lines_all_trimmed:
  "\<forall>l \<in> set ls. trimmed l \<and> CHR 0x0A \<notin> set l \<Longrightarrow> concat (map content_lines ls) = ls"
  by (induction ls) (simp_all add: content_lines_trimmed)

lemma in_set_dropWhile: "x \<in> set s \<Longrightarrow> \<not> P x \<Longrightarrow> x \<in> set (dropWhile P s)"
  by (induction s) auto

lemma in_set_trim: "x \<in> set s \<Longrightarrow> \<not> is_ws x \<Longrightarrow> x \<in> set (trim s)"
  by (simp add: trim_def in_set_dropWhile)

lemma trim_keeps_first: "\<not> is_ws x \<Longrightarrow> startsWith (trim (x # xs)) x"
proof -
  assume x: "\<not> is_ws x"
  then have "x \<in> set (trim (x # xs))" by (simp add: in_set_trim)
  then have "trim (x # xs) \<noteq> []" by auto
  then have "dropWhile is_ws (rev xs @ [x]) \<noteq> []" using x by (simp add: trim_def)
  moreover have "last (dropWhile is_ws (rev xs @ [x])) = x"
    using x by (simp add: dropWhile_append)
  ultimately have "hd (trim (x # xs)) = x"
    using x by (simp add: trim_def hd_rev)
  with \<open>trim (x # xs) \<noteq> []\<close> show ?thesis
    by (cases "trim (x # xs)") (simp_all add: startsWith_def)
qed

lemma join_lines:
  "join [CHR 0x0A] ls @ [CHR 0x0A]
   = (if ls = [] then [CHR 0x0A] else concat (map (\<lambda>l. l @ [CHR 0x0A]) ls))"
  by (induction "[CHR 0x0A]" ls rule: join.induct) simp_all


lemma header_field_lines:
  assumes "one_line v" and "CHR 0x0A \<notin> set label" and "CHR '':'' \<in> set label"
  shows "\<exists>pre. content_lines (header_field label v @ rest) = pre @ content_lines rest
               \<and> (\<forall>l \<in> set pre. includes_char l CHR '':'')"
proof (cases "truthy_str v")
  case False
  then show ?thesis by (simp add: header_field_def)
next
  case True
  then obtain s where v: "v = Some s" by (cases v) (auto simp: truthy_str_def)
  have nl: "CHR 0x0A \<notin> set (label @ s)"
    using assms(1,2) by (simp add: v one_line_def)
  have "\<not> is_ws CHR '':''" by (simp add: is_ws_def)
  then have colon: "CHR '':'' \<in> set (trim (label @ s))"
    using assms(3) by (simp add: in_set_trim)
  have "content_lines (header_field label v @ rest)
        = content_lines ((label @ s) @ [CHR 0x0A] @ rest)"
    using True by (simp add: header_field_def v str_of_def)
  also have "\<dots> = content_lines (label @ s) @ content_lines rest"
    by (rule content_lines_append)
  also have "\<dots> = [trim (label @ s)] @ content_lines rest"
    using colon by (auto simp: content_lines_single [OF nl])
  finally show ?thesis
    using colon by (auto simp: includes_char_def)
qed

lemma comment_lines_written:
  assumes "list_all (\<lambda>c. CHR 0x0A \<notin> set c) cs"
  shows "\<exists>pre. content_lines (join [CHR 0x0A] (map comment_line cs) @ [CHR 0x0A] @ rest)
                 = pre @ content_lines rest
               \<and> (\<forall>l \<in> set pre. startsWith l CHR ''#'')"
proof (cases "cs = []")
  case True
  have "content_lines ([] @ [CHR 0x0A] @ rest) = content_lines [] @ content_lines rest"
    by (rule content_lines_append)
  with True show ?thesis by (simp add: content_lines_Nil)
next
  case False
  have hash: "\<not> is_ws CHR ''#''" by (simp add: is_ws_def)
  have one: "content_lines (comment_line c) = [trim (comment_line c)]
             \<and> startsWith (trim (comment_line c)) CHR ''#''"
    if "CHR 0x0A \<notin> set c" for c
  proof -
    have nl: "CHR 0x0A \<notin> set (comment_line c)" using that by (simp add: comment_line_def)
    have st: "startsWith (trim (comment_line c)) CHR ''#''"
      using trim_keeps_first [OF hash, of "'' '' @ c"] by (simp add: comment_line_def)
    then have "trim (comment_line c) \<noteq> []" by (auto simp: startsWith_def)
    with st show ?thesis using content_lines_single [OF nl] by simp
  qed
  have "join [CHR 0x0A] (map comment_line cs) @ [CHR 0x0A] @ rest
        = concat (map (\<lambda>l. l @ [CHR 0x0A]) (map comment_line cs)) @ rest"
    using False join_lines [of "map comment_line cs"] by simp
  then have "content_lines (join [CHR 0x0A] (map comment_line cs) @ [CHR 0x0A] @ rest)
        = concat (map content_lines (map comment_line cs)) @ content_lines rest"
    by (simp only: content_lines_concat)
  moreover have "\<forall>l \<in> set (concat (map content_lines (map comment_line cs))). startsWith l CHR ''#''"
    using assms one by (auto simp: list_all_iff)
  ultimately show ?thesis by blast
qed

lemma generateSP1Content_lines:
  assumes "header_one_line (header d)"
    and "\<forall>p \<in> set (points d). trimmed (point_line p) \<and> CHR 0x0A \<notin> set (point_line p)"
  shows "\<exists>pre. content_lines (generateSP1Content d) = pre @ map point_line (points d)
               \<and> (\<forall>l \<in> set pre. startsWith l CHR ''#'' \<or> includes_char l CHR '':'')"
proof -
  define P where "P = concat (map (\<lambda>p. point_line p @ [CHR 0x0A]) (points d))"
  define F4 where "F4 = header_field ''Projection: '' (projection (header d)) @ [CHR 0x0A] @ P"
  define F3 where "F3 = header_field ''Datum: '' (datum (header d)) @ F4"
  define F2 where "F2 = header_field ''Survey: '' (survey (header d)) @ F3"
  define F1 where "F1 = header_field ''Version: '' (version (header d)) @ F2"
  have ol: "one_line (version (header d))" "one_line (survey (header d))"
    "one_line (datum (header d))" "one_line (projection (header d))"
    using assms(1) by (simp_all add: header_one_line_def)
  have "concat (map (\<lambda>l. l @ [CHR 0x0A]) (map point_line (points d))) @ [] = P"
    by (simp add: P_def comp_def)
  then have "content_lines P = concat (map content_lines (map point_line (points d))) @ content_lines []"
    using content_lines_concat [of "map point_line (points d)" "[]"] by simp
  also have "\<dots> = map point_line (points d)"
    using assms(2) content_lines_all_trimmed [of "map point_line (points d)"]
    by (simp add: content_lines_Nil)
  finally have p: "content_lines P = map point_line (points d)" .
  have "content_lines ([] @ [CHR 0x0A] @ P) = content_lines [] @ content_lines P"
    by (rule content_lines_append)
  then have sep: "content_lines ([CHR 0x0A] @ P) = map point_line (points d)"
    by (simp add: content_lines_Nil p)
  obtain p4 where p4: "content_lines F4 = p4 @ map point_line (points d)"
    "\<forall>l \<in> set p4. includes_char l CHR '':''"
    using header_field_lines [OF ol(4), of "''Projection: ''" "[CHR 0x0A] @ P"] sep
    unfolding F4_def by auto
  obtain p3 where p3: "content_lines F3 = p3 @ content_lines F4"
    "\<forall>l \<in> set p3. includes_char l CHR '':''"
    using header_field_lines [OF ol(3), of "''Datum: ''" F4] unfolding F3_def by auto
  obtain p2 where p2: "content_lines F2 = p2 @ content_lines F3"
    "\<forall>l \<in> set p2. includes_char l CHR '':''"
    using header_field_lines [OF ol(2), of "''Survey: ''" F3] unfolding F2_def by auto
  obtain p1 where p1: "content_lines F1 = p1 @ content_lines F2"
    "\<forall>l \<in> set p1. includes_char l CHR '':''"
    using header_field_lines [OF ol(1), of "''Version: ''" F2] unfolding F1_def by auto
  have fields: "content_lines F1 = (p1 @ p2 @ p3 @ p4) @ map point_line (points d)"
    by (simp add: p1 p2 p3 p4)
  have fl: "\<forall>l \<in> set (p1 @ p2 @ p3 @ p4). includes_char l CHR '':''"
    using p1 p2 p3 p4 by auto
  show ?thesis
  proof (cases "comments (header d)")
    case None
    then have "generateSP1Content d = F1"
      by (simp add: generateSP1Content_def F1_def F2_def F3_def F4_def P_def)
    with fields fl show ?thesis by auto
  next
    case (Some cs)
    then have cs: "list_all (\<lambda>c. CHR 0x0A \<notin> set c) cs"
      using assms(1) by (simp add: header_one_line_def)
    have "generateSP1Content d = join [CHR 0x0A] (map comment_line cs) @ [CHR 0x0A] @ F1"
      using Some by (simp add: generateSP1Content_def F1_def F2_def F3_def F4_def P_def)
    then obtain pc where pc: "content_lines (generateSP1Content d) = pc @ content_lines F1"
      "\<forall>l \<in> set pc. startsWith l CHR ''#''"
      using comment_lines_written [OF cs, of F1] by auto
    have "content_lines (generateSP1Content d) = (pc @ p1 @ p2 @ p3 @ p4) @ map point_line (points d)"
      by (simp add: pc fields)
    moreover have "\<forall>l \<in> set (pc @ p1 @ p2 @ p3 @ p4). startsWith l CHR ''#'' \<or> includes_char l CHR '':''"
      using pc(2) fl by auto
    ultimately show ?thesis by blast
  qed
qed

subsection \<open>What the reader of SP1 text stores is free of line feeds\<close>

lemma header_line_one_line:
  assumes "header_line h line = Inr h'" and "header_one_line h" and "CHR 0x0A \<notin> set line"
  shows "header_one_line h'"
proof -
  define parts where "parts = map trim (split_on CHR '':'' line)"
  have "\<forall>p \<in> set parts. CHR 0x0A \<notin> set p"
    using assms(3) split_on_chars [of _ "CHR '':''" line] set_trim
    unfolding parts_def by fastforce
  then have "one_line (nth_opt parts 1)"
    by (auto simp: one_line_def nth_opt_def)
  then show ?thesis
    using assms(1,2)
    by (auto simp: header_line_def Let_def header_one_line_def parts_def
             split: option.splits if_splits)
qed

lemma push_comment_one_line:
  assumes "header_one_line h" and "CHR 0x0A \<notin> set line"
  shows "header_one_line (push_comment h line)"
proof -
  have "set (trim (substring1 line)) \<subseteq> set line"
    using set_trim [of "substring1 line"] by (auto simp: substring1_def dest: in_set_dropD)
  then have "CHR 0x0A \<notin> set (trim (substring1 line))"
    using assms(2) by auto
  then show ?thesis
    using assms(1) by (auto simp: push_comment_def header_one_line_def split: option.splits)
qed

lemma step_one_line:
  assumes "step st line = Inr st'" and "header_one_line (st_header st)" and "CHR 0x0A \<notin> set line"
  shows "header_one_line (st_header st')"
  using assms
  by (auto simp: step_def push_comment_one_line split: if_splits sum.splits option.splits
           dest: header_line_one_line)

lemma run_one_line:
  "run st ls = Inr st' \<Longrightarrow> header_one_line (st_header st) \<Longrightarrow>
   \<forall>l \<in> set ls. CHR 0x0A \<notin> set l \<Longrightarrow> header_one_line (st_header st')"
proof (induction ls arbitrary: st)
  case Nil
  then show ?case by simp
next
  case (Cons l ls)
  from Cons.prems(1) obtain st1 where s1: "step st l = Inr st1" and r: "run st1 ls = Inr st'"
    by (auto split: sum.splits)
  have "header_one_line (st_header st1)"
    using step_one_line [OF s1 Cons.prems(2)] Cons.prems(3) by simp
  then show ?case
    using Cons.IH [OF r] Cons.prems(3) by simp
qed

lemma parseSP1File_one_line:
  assumes "parseSP1File t = Inr d"
  shows "header_one_line (header d)"
proof -
  from assms obtain st' where r: "run init_state (content_lines t) = Inr st'"
    and d: "d = \<lparr>header = st_header st', points = st_points st'\<rparr>"
    by (auto simp: parseSP1File_def split: sum.splits)
  have "header_one_line (st_header init_state)"
    by (simp add: init_state_def empty_header_def header_one_line_def one_line_def)
  moreover have "\<forall>l \<in> set (content_lines t). CHR 0x0A \<notin> set l"
    using content_lines_line(2) by blast
  ultimately show ?thesis
    using run_one_line [OF r] by (simp add: d)
qed

subsection \<open>Reading back the line of a point\<close>

lemma append_single: "(@) [c] = (#) c"
  by (rule ext) simp

lemma point_line_fields:
  "point_line p = str_of (id_p p) @ concat (map ((#) CHR 0x09) (point_fields p))"
  by (simp add: point_line_def point_fields_def append_single split: option.splits)

lemma split_ws_tab_fields:
  assumes "token f" and "\<forall>g \<in> set fs. token g"
  shows "split_ws (f @ concat (map ((#) CHR 0x09) fs)) = f # fs"
  using split_ws_fields [OF assms] by (simp add: append_single)

lemma token_ends:
  assumes "token f"
  shows "f \<noteq> []" and "\<not> is_ws (hd f)" and "\<not> is_ws (last f)"
proof -
  show ne: "f \<noteq> []" using assms by (simp add: token_def)
  then have "hd f \<in> set f" "last f \<in> set f" by simp_all
  then show "\<not> is_ws (hd f)" and "\<not> is_ws (last f)"
    using assms by (auto simp: token_def list_all_iff)
qed

lemma toFixed_token:
  assumes "plain x" and "0 < f"
  shows "token (toFixed f x)"
proof -
  have "\<not> is_ws c" if "is_digit c \<or> c = CHR ''-'' \<or> c = CHR ''.''" for c
    using that by (auto simp: is_digit_def is_ws_def)
  then show ?thesis
    using toFixed_chars [OF assms] by (auto simp: token_def list_all_iff)
qed

lemma toFixed_no_colon:
  assumes "plain x" and "0 < f"
  shows "CHR '':'' \<notin> set (toFixed f x)"
proof -
  have "c \<noteq> CHR '':''" if "is_digit c \<or> c = CHR ''-'' \<or> c = CHR ''.''" for c
    using that by (auto simp: is_digit_def)
  then show ?thesis
    using toFixed_chars(2) [OF assms] by blast
qed

lemma line_attributes_values: "map snd (line_attributes parts) = drop 4 parts"
  by (rule nth_equalityI) (auto simp: line_attributes_def)

lemma fields_trimmed:
  assumes "token f" and "\<forall>g \<in> set fs. token g"
  shows "trimmed (f @ concat (map ((#) CHR 0x09) fs))"
  using assms
proof (induction fs arbitrary: f)
  case Nil
  then show ?case
    using token_ends [of f] by (simp add: trimmed_def)
next
  case (Cons g gs)
  define rest where "rest = g @ concat (map ((#) CHR 0x09) gs)"
  have t: "trimmed rest"
    unfolding rest_def using Cons.IH [of g] Cons.prems(2) by simp
  then have ne: "rest \<noteq> []"
    by (simp add: trimmed_def)
  have eq: "f @ concat (map ((#) CHR 0x09) (g # gs)) = (f @ [CHR 0x09]) @ rest"
    by (simp add: rest_def)
  have "last ((f @ [CHR 0x09]) @ rest) = last rest"
    using ne by simp
  moreover have "hd ((f @ [CHR 0x09]) @ rest) = hd f"
    using token_ends(1) [OF Cons.prems(1)] by simp
  ultimately show ?case
    using t token_ends(2) [OF Cons.prems(1)] unfolding eq by (simp add: trimmed_def)
qed

lemma fields_chars:
  "set (f @ concat (map ((#) CHR 0x09) fs)) \<subseteq> set f \<union> {CHR 0x09} \<union> \<Union> (set ` set fs)"
  by (induction fs) auto


lemma plain_not_NaN: "plain x \<Longrightarrow> x \<noteq> NaN"
  by (auto simp: plain_def)

lemma round_to_not_NaN: "plain x \<Longrightarrow> round_to f x \<noteq> NaN"
  by (cases x) (auto simp: plain_def round_to_def)

lemma point_round_trip:
  assumes tr: "trimmed l" and nh: "\<not> startsWith l CHR ''#''" and ok: "point_line_ok l"
  shows "\<exists>p p'. data_line l = Some p \<and> data_line (point_line p) = Some p'
      \<and> id_p p' = id_p p \<and> x_p p' = round_to 6 (x_p p) \<and> y_p p' = round_to 6 (y_p p)
      \<and> elevation p' = map_option (round_to 3) (elevation p)
      \<and> trimmed (point_line p) \<and> CHR 0x0A \<notin> set (point_line p)
      \<and> \<not> startsWith (point_line p) CHR ''#''
      \<and> (includes_char (point_line p) CHR '':'' \<longrightarrow> includes_char l CHR '':'')"
proof -
  define parts where "parts = split_ws l"
  define ident where "ident = parts ! 0"
  define x where "x = parseFloat (parts ! 1)"
  define y where "y = parseFloat (parts ! 2)"
  define e where "e = parseFloat (parts ! 3)"
  have toks: "\<forall>t \<in> set parts. token t"
    and chars: "\<forall>t \<in> set parts. set t \<subseteq> set l"
    and hd_parts: "hd (hd parts) = hd l"
    unfolding parts_def using split_ws_tokens [OF tr] by simp_all
  have len: "3 \<le> length parts" and px: "plain x" and py: "plain y"
    and pe: "3 < length parts \<Longrightarrow> plain e"
    using ok by (simp_all add: point_line_ok_def parts_def x_def y_def e_def)
  have id_in: "ident \<in> set parts"
    unfolding ident_def by (rule nth_mem) (use len in linarith)
  then have id_tok: "token ident" and id_chars: "set ident \<subseteq> set l"
    using toks chars by simp_all
  have id_hd: "hd ident = hd l"
    using hd_parts len by (cases parts) (simp_all add: ident_def)
  define p where "p = \<lparr>id_p = Some ident, x_p = x, y_p = y,
      elevation = (if 3 < length parts then Some e else None),
      attributes = (if 4 < length parts then Some (line_attributes parts) else None)\<rparr>"
  have dl: "data_line l = Some p"
    using len pe plain_not_NaN [of e]
    by (auto simp: data_line_def Let_def parts_def [symmetric] p_def ident_def x_def y_def e_def
          isNaN_def)
  define fs where "fs = point_fields p"
  have fs: "fs = [toFixed 6 x, toFixed 6 y]
              @ (if 3 < length parts then [toFixed 3 e] else [])
              @ (if 4 < length parts then drop 4 parts else [])"
    by (simp add: fs_def point_fields_def p_def line_attributes_values)
  have drop_in: "g \<in> set (drop 4 parts) \<Longrightarrow> g \<in> set parts" for g
    by (rule in_set_dropD)
  have fs_tok: "\<forall>g \<in> set fs. token g"
    using toFixed_token [OF px, of 6] toFixed_token [OF py, of 6] toFixed_token [OF pe, of 3]
      toks drop_in
    by (auto simp: fs split: if_splits)
  have fs_colon: "\<forall>g \<in> set fs. CHR '':'' \<in> set g \<longrightarrow> CHR '':'' \<in> set l"
    using toFixed_no_colon [OF px, of 6] toFixed_no_colon [OF py, of 6] toFixed_no_colon [OF pe, of 3]
      chars drop_in
    by (auto simp: fs split: if_splits)
  have line: "point_line p = ident @ concat (map ((#) CHR 0x09) fs)"
    by (simp add: point_line_fields fs_def) (simp add: p_def str_of_def)
  have sp: "split_ws (point_line p) = ident # fs"
    unfolding line by (rule split_ws_tab_fields [OF id_tok fs_tok])
  define p' where "p' = \<lparr>id_p = Some ident, x_p = parseFloat (toFixed 6 x),
      y_p = parseFloat (toFixed 6 y),
      elevation = (if 3 < length parts then Some (parseFloat (toFixed 3 e)) else None),
      attributes = (if 4 < length (ident # fs) then Some (line_attributes (ident # fs)) else None)\<rparr>"
  have e_back: "3 < length parts \<Longrightarrow> parseFloat (toFixed 3 e) \<noteq> NaN"
    using parseFloat_toFixed [OF pe, of 3] round_to_not_NaN [OF pe, of 3] by simp
  have dl': "data_line (point_line p) = Some p'"
    using e_back
    by (auto simp: data_line_def Let_def sp p'_def fs isNaN_def)
  have id: "id_p p' = id_p p"
    by (simp add: p_def p'_def)
  have rx: "x_p p' = round_to 6 (x_p p)"
    using parseFloat_toFixed [OF px, of 6] by (simp add: p_def p'_def)
  have ry: "y_p p' = round_to 6 (y_p p)"
    using parseFloat_toFixed [OF py, of 6] by (simp add: p_def p'_def)
  have re: "elevation p' = map_option (round_to 3) (elevation p)"
    using parseFloat_toFixed [OF pe, of 3] by (simp add: p_def p'_def)
  have trl: "trimmed (point_line p)"
    unfolding line by (rule fields_trimmed [OF id_tok fs_tok])
  have no_ws: "\<not> is_ws c" if "c \<in> set g" "token g" for c g
    using that by (auto simp: token_def list_all_iff)
  have "\<forall>c \<in> set (point_line p). c = CHR 0x09 \<or> \<not> is_ws c"
    using fields_chars [of ident fs] id_tok fs_tok no_ws unfolding line by blast
  moreover have "is_ws CHR 0x0A" by (simp add: is_ws_def)
  ultimately have nl: "CHR 0x0A \<notin> set (point_line p)"
    by auto
  have "hd (point_line p) = hd l"
    using token_ends(1) [OF id_tok] id_hd by (simp add: line)
  moreover have "l \<noteq> []" "point_line p \<noteq> []"
    using tr trl by (simp_all add: trimmed_def)
  ultimately have nhash: "\<not> startsWith (point_line p) CHR ''#''"
    using nh by (cases l; cases "point_line p") (simp_all add: startsWith_def)
  have colon: "includes_char (point_line p) CHR '':'' \<longrightarrow> includes_char l CHR '':''"
    using fields_chars [of ident fs] id_chars fs_colon
    unfolding line includes_char_def by auto
  from dl dl' id rx ry re trl nl nhash colon show ?thesis
    by blast
qed

end
